theory Spec2Isabelle
  imports Main "HOL-Library.Word"
begin

section \<open>Data model of the health-check registry (src/health.go)\<close>

text \<open>
  Instants (\<^verbatim>\<open>time.Time\<close>) and durations (\<^verbatim>\<open>time.Duration\<close>) are integers
  (nanoseconds). The detail value of a result is an \<^verbatim>\<open>interface{}\<close> that the
  registry only stores; \<^verbatim>\<open>RegisterCheck\<close> stores a string there, so details are
  strings.
\<close>

type_synonym time = int
type_synonym duration = int
type_synonym details = string

text \<open>
  A check (\<^verbatim>\<open>checks.Check\<close>) is an interface value. The registry calls its
  \<^verbatim>\<open>Name()\<close>; what \<^verbatim>\<open>Execute()\<close> returns is an input of each execution.
  \<open>Impl\<close> tells two checks of the same name apart.
\<close>

record Check =
  Name :: string
  Impl :: nat

text \<open>
  Go's \<^verbatim>\<open>error\<close> values; a nil error is \<open>None\<close>. \<open>ErrorString\<close> is an error
  with a fixed message (\<^verbatim>\<open>fmt.Errorf\<close> of a format without verbs), \<open>Errorf\<close>
  keeps the format and its argument of \<^verbatim>\<open>errors.Errorf("misconfigured check %v", cfg.Check)\<close>
  unrendered, \<open>Marshalable\<close> is the wrapper that \<^verbatim>\<open>newMarshalableError\<close> builds.
\<close>

datatype error =
    ErrorString string
  | Errorf string "Check option"
  | Marshalable error

text \<open>
  The \<^verbatim>\<open>Config\<close> struct is declared outside src/; these are the fields that
  src/health.go reads.
\<close>

record Config =
  Check :: "Check option"
  ExecutionPeriod :: duration
  InitialDelay :: duration
  InitiallyPassing :: bool

text \<open>
  The \<^verbatim>\<open>Result\<close> struct is declared outside src/; these are the fields that
  \<^verbatim>\<open>updateResult\<close> writes. \<open>ContiguousFailures\<close> is declared there as an
  \<^verbatim>\<open>int64\<close>: a word of 64 bits, read as a signed integer by \<open>sint\<close>; \<^verbatim>\<open>+ 1\<close> wraps from
  \<open>2^63 - 1\<close> to \<open>- 2^63\<close>. \<open>TimeOfFirstFailure\<close> is a \<^verbatim>\<open>*time.Time\<close>: nil is
  \<open>None\<close>, \<^verbatim>\<open>&t\<close> is \<open>Some t\<close>.
\<close>

record Result =
  Details :: details
  Error :: "error option"
  Timestamp :: time
  Duration :: duration
  ContiguousFailures :: "64 word"
  TimeOfFirstFailure :: "time option"

text \<open>
  The \<^verbatim>\<open>checkTask\<close> struct is declared outside src/; src/health.go uses its
  fields \<^verbatim>\<open>stopChan\<close>, \<^verbatim>\<open>ticker\<close> and \<^verbatim>\<open>check\<close>. A channel is the index
  of its buffer in the registry's \<open>stopChans\<close>; the ticker is nil (\<open>None\<close>) or a
  ticker of a period.
\<close>

record checkTask =
  stopChan :: nat
  ticker :: "duration option"
  check :: Check

text \<open>The calls made to the two listeners, in order.\<close>

datatype notification =
    CheckRegistered string Result
  | CheckStarted string
  | CheckCompleted string Result
  | ResultsUpdated "string \<rightharpoonup> Result"

text \<open>
  The \<^verbatim>\<open>health\<close> struct: the two maps, and what the Go runtime holds for it: the
  buffers of the stop channels made so far (capacity one each), the execution loops
  that are running (keyed by their task's channel, with the loop's own copy of the
  task and its configuration), the calls received by the listeners, and the calls of
  \<^verbatim>\<open>RegisterCheck\<close> that are between their two critical sections (they stored
  their initial result and did not yet create their task), each with its
  configuration. The lock is the atomicity of each function below that takes it.
\<close>

record health =
  results :: "string \<rightharpoonup> Result"
  checkTasks :: "string \<rightharpoonup> checkTask"
  stopChans :: "bool list list"
  goroutines :: "nat \<rightharpoonup> checkTask \<times> Config"
  notified :: "notification list"
  registering :: "Config list"

text \<open>How a call ends: it returns a value, or it panics.\<close>

datatype 'a exit = Return 'a | Panic

text \<open>
  What \<^verbatim>\<open>task.execute()\<close> does in one execution: it returns
  \<^verbatim>\<open>(details, duration, err)\<close>, or the check faults (a panic leaves it).
  \<^verbatim>\<open>checkTask.execute\<close> is declared outside src/: its outcome is an input.
\<close>

datatype execution = Returned details duration "error option" | Panicked

text \<open>
  The case that the \<^verbatim>\<open>select\<close> of \<^verbatim>\<open>runCheckOrStop\<close> takes: a value was
  received from the stop channel; or the timer delivered an instant, and then what
  the execution of the check does.
\<close>

datatype select_case = StopCase | TimerCase time execution

section \<open>Helpers declared outside src/\<close>

text \<open>
  Modelled from the spec: the constant \<^verbatim>\<open>initialResultMsg\<close> is declared outside
  src/; the spec calls it the sentinel "not yet checked" message.
\<close>

definition initialResultMsg :: string where
  "initialResultMsg = ''not yet checked''"

text \<open>
  Modelled from the spec: \<^verbatim>\<open>Result.IsHealthy\<close> is declared outside src/;
  the spec defines \<^verbatim>\<open>IsHealthy(result) := result.error == nil\<close>.
\<close>

definition Result_IsHealthy :: "Result \<Rightarrow> bool" where
  "Result_IsHealthy r = (Error r = None)"

text \<open>
  Modelled from the spec: \<^verbatim>\<open>newMarshalableError\<close> is declared outside src/;
  the spec says the error is "wrapped into a marshalable form (nil stays nil)".
\<close>

definition newMarshalableError :: "error option \<Rightarrow> error option" where
  "newMarshalableError err = (case err of None \<Rightarrow> None | Some e \<Rightarrow> Some (Marshalable e))"

text \<open>
  Modelled from the spec: \<^verbatim>\<open>allHealthy\<close> is declared outside src/; the spec says
  that \<^verbatim>\<open>IsHealthy()\<close> is the "same aggregate" as that of \<^verbatim>\<open>Results()\<close>,
  the AND over all results of \<^verbatim>\<open>IsHealthy(result)\<close>, "without materializing the
  copy". The list \<open>ks\<close> is the order in which the \<^verbatim>\<open>range\<close> visits the keys.
\<close>

definition allHealthy :: "(string \<rightharpoonup> Result) \<Rightarrow> string list \<Rightarrow> bool" where
  "allHealthy res ks =
     foldl (\<lambda>healthy k. case res k of None \<Rightarrow> healthy
                                     | Some v \<Rightarrow> healthy \<and> Result_IsHealthy v) True ks"

text \<open>
  Modelled from the spec: \<^verbatim>\<open>copyResultsMap\<close> is declared outside src/; the spec
  says the listener gets "a fresh defensive copy". Maps are values here.
\<close>

definition copyResultsMap :: "(string \<rightharpoonup> Result) \<Rightarrow> (string \<rightharpoonup> Result)" where
  "copyResultsMap m = m"

text \<open>
  Modelled from the spec: \<^verbatim>\<open>checkTask.stop\<close> is declared outside src/; the spec
  says "the ticker (if started) is released". It acts on the ticker of the task it is
  called on, and on nothing of the registry.
\<close>

definition stop :: "checkTask \<Rightarrow> checkTask" where
  "stop task = task"

section \<open>The registry (src/health.go)\<close>

text \<open>
  \<^verbatim>\<open>New\<close> (lines 33-43): both maps empty, nothing running. The options,
  declared outside src/, set the listeners.
\<close>

definition New :: health where
  "New = \<lparr>results = Map.empty, checkTasks = Map.empty, stopChans = [],
          goroutines = Map.empty, notified = [], registering = []\<rparr>"

text \<open>A call of a listener.\<close>

definition notify :: "health \<Rightarrow> notification \<Rightarrow> health" where
  "notify h n = h\<lparr>notified := notified h @ [n]\<rparr>"

text \<open>
  \<^verbatim>\<open>updateResult\<close> (lines 180-211). The candidate starts with
  \<open>ContiguousFailures = 0\<close> (Go's zero value) and \<open>TimeOfFirstFailure = None\<close>.
\<close>

definition updateResult ::
  "health \<Rightarrow> string \<Rightarrow> details \<Rightarrow> duration \<Rightarrow> error option \<Rightarrow> time \<Rightarrow> health \<times> Result" where
  "updateResult h name dets checkDuration err t =
     (let prev = results h name;
          result0 = \<lparr>Details = dets, Error = newMarshalableError err, Timestamp = t,
                     Duration = checkDuration, ContiguousFailures = 0,
                     TimeOfFirstFailure = None\<rparr>;
          result =
            (if \<not> Result_IsHealthy result0 then
               (case prev of
                  Some prevResult \<Rightarrow>
                    result0\<lparr>ContiguousFailures := ContiguousFailures prevResult + 1,
                            TimeOfFirstFailure :=
                              (if Result_IsHealthy prevResult then Some t
                               else TimeOfFirstFailure prevResult)\<rparr>
                | None \<Rightarrow>
                    result0\<lparr>ContiguousFailures := 1, TimeOfFirstFailure := Some t\<rparr>)
             else result0)
      in (h\<lparr>results := (results h)(name \<mapsto> result)\<rparr>, result))"

text \<open>
  \<^verbatim>\<open>createCheckTask\<close> (lines 70-81): a new channel, the task stored under the
  check's name. A nil \<^verbatim>\<open>cfg.Check\<close> panics at \<^verbatim>\<open>cfg.Check.Name()\<close>, after the
  channel was made.
\<close>

definition createCheckTask :: "health \<Rightarrow> Config \<Rightarrow> health \<times> checkTask exit" where
  "createCheckTask h cfg =
     (let c = length (stopChans h);
          h1 = h\<lparr>stopChans := stopChans h @ [[]]\<rparr>
      in case Check cfg of
           None \<Rightarrow> (h1, Panic)
         | Some chk \<Rightarrow>
             (let task = \<lparr>stopChan = c, ticker = None, check = chk\<rparr>
              in (h1\<lparr>checkTasks := (checkTasks h1)(Name chk \<mapsto> task)\<rparr>, Return task)))"

text \<open>
  \<^verbatim>\<open>stopCheckTask\<close> (lines 83-93): the map's copy of the task is stopped (for an
  absent name the map gives the zero task, which has no ticker: \<open>None\<close> here), then
  the name is deleted from both maps.
\<close>

definition stopCheckTask :: "health \<Rightarrow> string \<Rightarrow> health" where
  "stopCheckTask h name =
     (let task = map_option stop (checkTasks h name)
      in h\<lparr>results := (results h)(name := None),
            checkTasks := (checkTasks h)(name := None)\<rparr>)"

text \<open>
  \<^verbatim>\<open>scheduleCheck\<close> (lines 95-111) starts the execution loop of the task; the
  body of the loop is \<open>iteration\<close> below.
\<close>

definition scheduleCheck :: "health \<Rightarrow> checkTask \<Rightarrow> Config \<Rightarrow> health" where
  "scheduleCheck h task cfg = h\<lparr>goroutines := (goroutines h)(stopChan task \<mapsto> (task, cfg))\<rparr>"

text \<open>
  \<^verbatim>\<open>RegisterCheck\<close> (lines 53-68). \<open>cfgp\<close> is the pointer \<^verbatim>\<open>cfg\<close> (nil is
  \<open>None\<close>, and \<^verbatim>\<open>cfg.Check\<close> panics on it); \<open>now\<close> is what \<^verbatim>\<open>time.Now()\<close>
  returns.
\<close>

definition RegisterCheck :: "health \<Rightarrow> Config option \<Rightarrow> time \<Rightarrow> health \<times> error option exit" where
  "RegisterCheck h cfgp now =
     (case cfgp of
        None \<Rightarrow> (h, Panic)
      | Some cfg \<Rightarrow>
          (case Check cfg of
             None \<Rightarrow> (h, Return (Some (Errorf ''misconfigured check %v'' (Check cfg))))
           | Some chk \<Rightarrow>
               if Name chk = [] then
                 (h, Return (Some (Errorf ''misconfigured check %v'' (Check cfg))))
               else
                 (let initialErr = (if \<not> InitiallyPassing cfg
                                    then Some (ErrorString initialResultMsg) else None);
                      (h1, result) = updateResult h (Name chk) initialResultMsg 0 initialErr now;
                      h2 = notify h1 (CheckRegistered (Name chk) result)
                  in case createCheckTask h2 cfg of
                       (h3, Panic) \<Rightarrow> (h3, Panic)
                     | (h3, Return task) \<Rightarrow> (scheduleCheck h3 task cfg, Return None))))"

text \<open>\<^verbatim>\<open>reportResults\<close> (lines 113-118).\<close>

definition reportResults :: "health \<Rightarrow> health" where
  "reportResults h = notify h (ResultsUpdated (copyResultsMap (results h)))"

text \<open>
  \<^verbatim>\<open>checkAndUpdateResult\<close> (lines 131-136). Nothing here recovers from a panic
  of \<^verbatim>\<open>task.execute()\<close>: it leaves the function after the "started" call.
\<close>

definition checkAndUpdateResult ::
  "health \<Rightarrow> checkTask \<Rightarrow> time \<Rightarrow> execution \<Rightarrow> health \<times> unit exit" where
  "checkAndUpdateResult h task checkTime ex =
     (let h1 = notify h (CheckStarted (Name (check task)))
      in case ex of
           Panicked \<Rightarrow> (h1, Panic)
         | Returned dets dur err \<Rightarrow>
             (let (h2, result) = updateResult h1 (Name (check task)) dets dur err checkTime
              in (notify h2 (CheckCompleted (Name (check task)) result), Return ())))"

text \<open>
  A receive from a stop channel: possible when its buffer holds a value. A send:
  possible when the buffer (capacity one) is empty; otherwise the sender blocks
  (\<open>None\<close>).
\<close>

definition recv :: "health \<Rightarrow> nat \<Rightarrow> health option" where
  "recv h c =
     (if c < length (stopChans h) \<and> stopChans h ! c \<noteq> []
      then Some (h\<lparr>stopChans := (stopChans h)[c := tl (stopChans h ! c)]\<rparr>)
      else None)"

definition send :: "health \<Rightarrow> nat \<Rightarrow> bool \<Rightarrow> health option" where
  "send h c v =
     (if c < length (stopChans h) \<and> stopChans h ! c = []
      then Some (h\<lparr>stopChans := (stopChans h)[c := stopChans h ! c @ [v]]\<rparr>)
      else None)"

text \<open>
  \<^verbatim>\<open>runCheckOrStop\<close> (lines 120-129), with the case that the \<^verbatim>\<open>select\<close> takes.
  \<open>None\<close>: that case is not ready.
\<close>

definition runCheckOrStop ::
  "health \<Rightarrow> checkTask \<Rightarrow> select_case \<Rightarrow> (health \<times> bool exit) option" where
  "runCheckOrStop h task sel =
     (case sel of
        StopCase \<Rightarrow>
          (case recv h (stopChan task) of
             None \<Rightarrow> None
           | Some h1 \<Rightarrow> Some (stopCheckTask h1 (Name (check task)), Return False))
      | TimerCase t ex \<Rightarrow>
          (case checkAndUpdateResult h task t ex of
             (h1, Panic) \<Rightarrow> Some (h1, Panic)
           | (h1, Return u) \<Rightarrow> Some (h1, Return True)))"

text \<open>
  One round of the loop that \<^verbatim>\<open>scheduleCheck\<close> starts (lines 96-110), for the
  loop of channel \<open>g\<close>: \<^verbatim>\<open>runCheckOrStop\<close>; on false the loop returns; on true
  \<^verbatim>\<open>reportResults\<close>, and after the first execution the ticker is made
  (\<^verbatim>\<open>time.NewTicker\<close> panics on a period that is not positive). The ticker is set
  in the loop's own task, not in the copy that the map holds.
\<close>

definition iteration ::
  "health \<Rightarrow> nat \<Rightarrow> select_case \<Rightarrow> (health \<times> unit exit) option" where
  "iteration h g sel =
     (case goroutines h g of
        None \<Rightarrow> None
      | Some (task, cfg) \<Rightarrow>
          (case runCheckOrStop h task sel of
             None \<Rightarrow> None
           | Some (h1, Panic) \<Rightarrow> Some (h1, Panic)
           | Some (h1, Return False) \<Rightarrow> Some (h1\<lparr>goroutines := (goroutines h1)(g := None)\<rparr>, Return ())
           | Some (h1, Return True) \<Rightarrow>
               (let h2 = reportResults h1
                in if ticker task \<noteq> None then Some (h2, Return ())
                   else if ExecutionPeriod cfg \<le> 0 then Some (h2, Panic)
                   else Some (h2\<lparr>goroutines := (goroutines h2)
                                     (g \<mapsto> (task\<lparr>ticker := Some (ExecutionPeriod cfg)\<rparr>, cfg))\<rparr>,
                              Return ()))))"

text \<open>
  \<^verbatim>\<open>Deregister\<close> (lines 138-147): a send on the task's stop channel when the name
  has a task; \<open>None\<close> when the send blocks.
\<close>

definition Deregister :: "health \<Rightarrow> string \<Rightarrow> health option" where
  "Deregister h name =
     (case checkTasks h name of
        None \<Rightarrow> Some h
      | Some task \<Rightarrow> send h (stopChan task) True)"

text \<open>
  \<^verbatim>\<open>Results\<close> (lines 158-171); \<open>ks\<close> is the order in which the \<^verbatim>\<open>range\<close>
  visits the keys of \<^verbatim>\<open>h.results\<close>.
\<close>

definition Results :: "health \<Rightarrow> string list \<Rightarrow> (string \<rightharpoonup> Result) \<times> bool" where
  "Results h ks =
     foldl (\<lambda>(res, healthy) k.
              case results h k of
                None \<Rightarrow> (res, healthy)
              | Some v \<Rightarrow> (res(k \<mapsto> v), healthy \<and> Result_IsHealthy v))
           (Map.empty, True) ks"

text \<open>\<^verbatim>\<open>IsHealthy\<close> of the registry (lines 173-178).\<close>

definition health_IsHealthy :: "health \<Rightarrow> string list \<Rightarrow> bool" where
  "health_IsHealthy h ks = allHealthy (results h) ks"

section \<open>Executions of the registry\<close>

text \<open>
  \<^verbatim>\<open>RegisterCheck\<close> takes the lock twice, in \<^verbatim>\<open>updateResult\<close> (line 64) and
  in \<^verbatim>\<open>createCheckTask\<close> (line 66), with a listener call between them; other
  goroutines can run in between. These are the two parts of a call with a valid
  configuration: lines 59-65, and lines 66-67.
\<close>

text \<open>The call of \<^verbatim>\<open>updateResult\<close> that \<^verbatim>\<open>RegisterCheck\<close> makes (line 64).\<close>

definition registered :: "health \<Rightarrow> Config \<Rightarrow> Check \<Rightarrow> time \<Rightarrow> health \<times> Result" where
  "registered h cfg c now =
     updateResult h (Name c) initialResultMsg 0
       (if \<not> InitiallyPassing cfg then Some (ErrorString initialResultMsg) else None) now"

definition RegisterCheck_first :: "health \<Rightarrow> Config \<Rightarrow> Check \<Rightarrow> time \<Rightarrow> health" where
  "RegisterCheck_first h cfg chk now =
     notify (fst (registered h cfg chk now))
       (CheckRegistered (Name chk) (snd (registered h cfg chk now)))"

definition RegisterCheck_second :: "health \<Rightarrow> Config \<Rightarrow> health \<times> error option exit" where
  "RegisterCheck_second h cfg =
     (case createCheckTask h cfg of
        (h3, Panic) \<Rightarrow> (h3, Panic)
      | (h3, Return task) \<Rightarrow> (scheduleCheck h3 task cfg, Return None))"

text \<open>
  What happens to a registry, one event at a time: a caller enters
  \<^verbatim>\<open>RegisterCheck\<close> and runs it up to line 65 (a call that is refused or panics
  ends there); a call that is between its critical sections runs lines 66-67 and
  returns; a caller's \<^verbatim>\<open>Deregister\<close>; or one round of the execution loop of
  channel \<open>g\<close> with the \<^verbatim>\<open>select\<close> case it takes.
  \<open>step\<close> is \<open>None\<close> when the event cannot happen in that state (no such call
  is under way, a send that blocks, a case that is not ready, a loop that is not
  running).
\<close>

datatype event =
    CallRegisterCheck "Config option" time
  | ReturnRegisterCheck Config
  | CallDeregister string
  | LoopRound nat select_case

fun step :: "health \<Rightarrow> event \<Rightarrow> (health \<times> unit exit) option" where
  "step h (CallRegisterCheck cfgp now) =
     (case cfgp of
        None \<Rightarrow> Some (h, Panic)
      | Some cfg \<Rightarrow>
          (case Check cfg of
             None \<Rightarrow> Some (h, Return ())
           | Some chk \<Rightarrow>
               if Name chk = [] then Some (h, Return ())
               else Some ((RegisterCheck_first h cfg chk now)
                            \<lparr>registering := registering h @ [cfg]\<rparr>, Return ())))"
| "step h (ReturnRegisterCheck cfg) =
     (if cfg \<in> set (registering h) then
        (case RegisterCheck_second (h\<lparr>registering := remove1 cfg (registering h)\<rparr>) cfg of
           (h1, Panic) \<Rightarrow> Some (h1, Panic)
         | (h1, Return e) \<Rightarrow> Some (h1, Return ()))
      else None)"
| "step h (CallDeregister name) =
     (case Deregister h name of None \<Rightarrow> None | Some h1 \<Rightarrow> Some (h1, Return ()))"
| "step h (LoopRound g sel) = iteration h g sel"

text \<open>
  A sequence of events. A panic that nothing recovers ends the program: no event
  follows it.
\<close>

fun run :: "health \<Rightarrow> event list \<Rightarrow> (health \<times> unit exit) option" where
  "run h [] = Some (h, Return ())"
| "run h (e # es) =
     (case step h e of
        None \<Rightarrow> None
      | Some (h1, Panic) \<Rightarrow> (if es = [] then Some (h1, Panic) else None)
      | Some (h1, Return u) \<Rightarrow> run h1 es)"

text \<open>
  The states of all interleavings: \<open>New\<close>, closed under the atomic actions of the
  code (each critical section, each channel operation, each listener call, each
  change of the set of running loops), in any order and with any arguments.
\<close>

inductive reachable :: "health \<Rightarrow> bool" where
  reach_New: "reachable New"
| reach_updateResult: "reachable h \<Longrightarrow> reachable (fst (updateResult h name dets dur err t))"
| reach_createCheckTask: "reachable h \<Longrightarrow> reachable (fst (createCheckTask h cfg))"
| reach_stopCheckTask: "reachable h \<Longrightarrow> reachable (stopCheckTask h name)"
| reach_notify: "reachable h \<Longrightarrow> reachable (notify h n)"
| reach_recv: "reachable h \<Longrightarrow> recv h c = Some h1 \<Longrightarrow> reachable h1"
| reach_send: "reachable h \<Longrightarrow> send h c v = Some h1 \<Longrightarrow> reachable h1"
| reach_goroutines: "reachable h \<Longrightarrow> reachable (h\<lparr>goroutines := gs\<rparr>)"
| reach_registering: "reachable h \<Longrightarrow> reachable (h\<lparr>registering := cs\<rparr>)"

text \<open>
  The same states, with a bound on how often \<^verbatim>\<open>updateResult\<close> has been called:
  \<open>reached_within n h\<close> when \<open>h\<close> is reached with at most \<open>n\<close> calls of it.
\<close>

inductive reached_within :: "nat \<Rightarrow> health \<Rightarrow> bool" where
  within_New: "reached_within 0 New"
| within_updateResult:
    "reached_within n h \<Longrightarrow> reached_within (Suc n) (fst (updateResult h name dets dur err t))"
| within_createCheckTask: "reached_within n h \<Longrightarrow> reached_within n (fst (createCheckTask h cfg))"
| within_stopCheckTask: "reached_within n h \<Longrightarrow> reached_within n (stopCheckTask h name)"
| within_notify: "reached_within n h \<Longrightarrow> reached_within n (notify h x)"
| within_recv: "reached_within n h \<Longrightarrow> recv h c = Some h1 \<Longrightarrow> reached_within n h1"
| within_send: "reached_within n h \<Longrightarrow> send h c v = Some h1 \<Longrightarrow> reached_within n h1"
| within_goroutines: "reached_within n h \<Longrightarrow> reached_within n (h\<lparr>goroutines := gs\<rparr>)"
| within_registering: "reached_within n h \<Longrightarrow> reached_within n (h\<lparr>registering := cs\<rparr>)"
| within_more: "reached_within n h \<Longrightarrow> reached_within (Suc n) h"

section \<open>Notions of the claims: recorded outcomes, failure streaks, invariants\<close>

text \<open>
  One outcome recorded by \<^verbatim>\<open>updateResult\<close>: the arguments of the call other than
  the name.
\<close>

record outcome =
  o_details :: details
  o_duration :: duration
  o_err :: "error option"
  o_time :: time

definition record_outcome :: "health \<Rightarrow> string \<times> outcome \<Rightarrow> health" where
  "record_outcome h u =
     fst (updateResult h (fst u) (o_details (snd u)) (o_duration (snd u))
            (o_err (snd u)) (o_time (snd u)))"

definition record_all :: "health \<Rightarrow> (string \<times> outcome) list \<Rightarrow> health" where
  "record_all h us = foldl record_outcome h us"

text \<open>The outcomes recorded for one name, in order.\<close>

definition outcomes_for :: "string \<Rightarrow> (string \<times> outcome) list \<Rightarrow> outcome list" where
  "outcomes_for name us = map snd (filter (\<lambda>u. fst u = name) us)"

definition failing :: "outcome \<Rightarrow> bool" where
  "failing x = (o_err x \<noteq> None)"

text \<open>The maximal suffix of consecutive failing outcomes that ends at the latest one.\<close>

definition failing_suffix :: "outcome list \<Rightarrow> outcome list" where
  "failing_suffix xs = rev (takeWhile failing (rev xs))"

text \<open>
  The invariant of a stored result; the count is compared as the signed integer that
  it is.
\<close>

definition Result_invariant :: "Result \<Rightarrow> bool" where
  "Result_invariant r =
     ((0 < sint (ContiguousFailures r)) = (Error r \<noteq> None) \<and>
      (Error r \<noteq> None) = (TimeOfFirstFailure r \<noteq> None))"

text \<open>
  What every stored result satisfies, whatever the count has come to: a healthy
  result has the count 0, and the error and the time of the first failure are nil
  together.
\<close>

definition stored_ok :: "Result \<Rightarrow> bool" where
  "stored_ok r =
     ((Error r = None \<longrightarrow> ContiguousFailures r = 0) \<and>
      (Error r \<noteq> None) = (TimeOfFirstFailure r \<noteq> None))"

text \<open>The count of a stored result is between 0 and \<open>n\<close>.\<close>

definition count_within :: "nat \<Rightarrow> Result \<Rightarrow> bool" where
  "count_within n r =
     (0 \<le> sint (ContiguousFailures r) \<and> sint (ContiguousFailures r) \<le> int n)"

text \<open>
  What a sequence of outcomes \<open>xs\<close> of a name carries on from the result \<open>r0\<close>
  that was stored for the name before it: while every outcome of the sequence fails,
  the count that was stored, and, when the stored result was failing, its time of the
  first failure.
\<close>

definition carried_count :: "Result option \<Rightarrow> outcome list \<Rightarrow> 64 word" where
  "carried_count r0 xs =
     (case r0 of
        None \<Rightarrow> 0
      | Some p \<Rightarrow> if list_all failing xs then ContiguousFailures p else 0)"

definition carried_over :: "Result option \<Rightarrow> outcome list \<Rightarrow> bool" where
  "carried_over r0 xs =
     (case r0 of None \<Rightarrow> False | Some p \<Rightarrow> list_all failing xs \<and> Error p \<noteq> None)"

definition carried_start :: "Result option \<Rightarrow> time option" where
  "carried_start r0 = (case r0 of None \<Rightarrow> None | Some p \<Rightarrow> TimeOfFirstFailure p)"

text \<open>
  What the stored result \<open>ro\<close> of a name is after the outcomes \<open>xs\<close> were recorded
  for it, starting from the stored result \<open>r0\<close>.
\<close>

definition streak_of :: "Result option \<Rightarrow> outcome list \<Rightarrow> Result option \<Rightarrow> bool" where
  "streak_of r0 xs ro =
     (if xs = [] then ro = r0
      else (\<exists>r. ro = Some r \<and>
               (Error r \<noteq> None) = failing (last xs) \<and>
               ContiguousFailures r =
                 carried_count r0 xs + of_nat (length (failing_suffix xs)) \<and>
               TimeOfFirstFailure r =
                 (if carried_over r0 xs then carried_start r0
                  else (case failing_suffix xs of [] \<Rightarrow> None | x # _ \<Rightarrow> Some (o_time x)))))"

text \<open>Every task of the map holds a channel that was made.\<close>

definition tasks_ok :: "health \<Rightarrow> bool" where
  "tasks_ok h = (\<forall>n tk. checkTasks h n = Some tk \<longrightarrow> stopChan tk < length (stopChans h))"

section \<open>Example values\<close>

text \<open>A failing and a passing outcome recorded at the instant \<open>t\<close>.\<close>

definition failed_at :: "time \<Rightarrow> outcome" where
  "failed_at t = \<lparr>o_details = ''down'', o_duration = 1, o_err = Some (ErrorString ''boom''), o_time = t\<rparr>"

definition passed_at :: "time \<Rightarrow> outcome" where
  "passed_at t = \<lparr>o_details = ''up'', o_duration = 1, o_err = None, o_time = t\<rparr>"

text \<open>A check named "a", its configurations, and the registry after registering it.\<close>

definition check_a :: Check where
  "check_a = \<lparr>Name = ''a'', Impl = 0\<rparr>"

definition cfg_a :: Config where
  "cfg_a = \<lparr>Check = Some check_a, ExecutionPeriod = 10, InitialDelay = 0, InitiallyPassing = False\<rparr>"

definition cfg_passing :: Config where
  "cfg_passing = \<lparr>Check = Some check_a, ExecutionPeriod = 10, InitialDelay = 0, InitiallyPassing = True\<rparr>"

definition registered_a :: health where
  "registered_a = fst (RegisterCheck New (Some cfg_a) 5)"

text \<open>A registry with a failing result for "a" and a passing one for "b".\<close>

definition two_results :: health where
  "two_results = record_all New [(''a'', failed_at 1), (''b'', passed_at 2)]"

text \<open>The registry after registering the check "a" as initially passing.\<close>

definition registered_passing :: health where
  "registered_passing = fst (RegisterCheck New (Some cfg_passing) 5)"

text \<open>
  The registry after \<open>2\<^sup>6\<^sup>3 - 1\<close> failing outcomes were recorded for "a", one after
  the other.
\<close>

definition many_failures :: health where
  "many_failures = record_all New (replicate (2 ^ 63 - 1) (''a'', failed_at 0))"

text \<open>
  Three executions from the new registry, all with the check "a".
  \<open>orphan_trace\<close>: "a" is registered twice, \<^verbatim>\<open>Deregister("a")\<close> signals the
  task of the map (channel 1), the loop of channel 1 takes the stop case, and the
  timer of the loop of channel 0 fires.
  \<open>reregister_trace\<close>: "a" is registered, deregistered and registered again; then
  the first loop (channel 0) takes the stop case and the timer of the second loop
  (channel 1) fires.
  \<open>overtaken_trace\<close>: "a" is registered and deregistered; a second
  \<^verbatim>\<open>RegisterCheck\<close> stores its initial result, the first loop takes the stop case,
  and the second \<^verbatim>\<open>RegisterCheck\<close> creates its task and returns.
\<close>

definition orphan_trace :: "event list" where
  "orphan_trace =
     [CallRegisterCheck (Some cfg_a) 1, ReturnRegisterCheck cfg_a,
      CallRegisterCheck (Some cfg_a) 2, ReturnRegisterCheck cfg_a,
      CallDeregister ''a'',
      LoopRound 1 StopCase,
      LoopRound 0 (TimerCase 3 (Returned ''up'' 1 None))]"

definition reregister_trace :: "event list" where
  "reregister_trace =
     [CallRegisterCheck (Some cfg_a) 1, ReturnRegisterCheck cfg_a,
      CallDeregister ''a'',
      CallRegisterCheck (Some cfg_a) 2, ReturnRegisterCheck cfg_a,
      LoopRound 0 StopCase,
      LoopRound 1 (TimerCase 3 (Returned ''up'' 1 None))]"

definition overtaken_trace :: "event list" where
  "overtaken_trace =
     [CallRegisterCheck (Some cfg_a) 1, ReturnRegisterCheck cfg_a,
      CallDeregister ''a'',
      CallRegisterCheck (Some cfg_a) 2,
      LoopRound 0 StopCase,
      ReturnRegisterCheck cfg_a]"

text \<open>The registry at the end of an execution from the new registry.\<close>

definition state_after :: "event list \<Rightarrow> health" where
  "state_after es = (case run New es of Some (h, x) \<Rightarrow> h | None \<Rightarrow> New)"

text \<open>A configuration of the check "a" with the zero execution period.\<close>

definition cfg_zero :: Config where
  "cfg_zero = \<lparr>Check = Some check_a, ExecutionPeriod = 0, InitialDelay = 0, InitiallyPassing = False\<rparr>"

definition registered_zero :: health where
  "registered_zero = fst (RegisterCheck New (Some cfg_zero) 5)"

section \<open>Facts about \<^verbatim>\<open>updateResult\<close> and recorded outcomes\<close>

lemma failing_suffix_snoc:
  "failing_suffix (xs @ [x]) = (if failing x then failing_suffix xs @ [x] else [])"
  by (simp add: failing_suffix_def)

lemma outcomes_for_snoc:
  "outcomes_for n (us @ [u]) = (if fst u = n then outcomes_for n us @ [snd u] else outcomes_for n us)"
  by (simp add: outcomes_for_def)

lemma record_all_snoc: "record_all h (us @ [u]) = record_outcome (record_all h us) u"
  by (simp add: record_all_def)

lemma results_record_outcome_other:
  "fst u \<noteq> n \<Longrightarrow> results (record_outcome h u) n = results h n"
  by (simp add: record_outcome_def updateResult_def Let_def)

lemma failing_suffix_Nil_iff:
  "xs \<noteq> [] \<Longrightarrow> (failing_suffix xs = []) = (\<not> failing (last xs))"
  by (cases xs rule: rev_cases) (simp_all add: failing_suffix_def)

lemma updateResult_stored:
  "results (fst (updateResult h n d dur e t)) n = Some (snd (updateResult h n d dur e t))"
  by (simp add: updateResult_def Let_def)

lemma updateResult_results:
  "results (fst (updateResult h name d dur e t)) =
     (results h)(name \<mapsto> snd (updateResult h name d dur e t))"
  by (simp add: updateResult_def Let_def)

lemma updateResult_healthy:
  "snd (updateResult h n d dur None t) =
     \<lparr>Details = d, Error = None, Timestamp = t, Duration = dur,
      ContiguousFailures = 0, TimeOfFirstFailure = None\<rparr>"
  by (simp add: updateResult_def Let_def Result_IsHealthy_def newMarshalableError_def)

lemma updateResult_failing_first:
  "results h n = None \<Longrightarrow>
   snd (updateResult h n d dur (Some e) t) =
     \<lparr>Details = d, Error = Some (Marshalable e), Timestamp = t, Duration = dur,
      ContiguousFailures = 1, TimeOfFirstFailure = Some t\<rparr>"
  by (simp add: updateResult_def Let_def Result_IsHealthy_def newMarshalableError_def)

lemma updateResult_failing_next:
  "results h n = Some p \<Longrightarrow>
   snd (updateResult h n d dur (Some e) t) =
     \<lparr>Details = d, Error = Some (Marshalable e), Timestamp = t, Duration = dur,
      ContiguousFailures = ContiguousFailures p + 1,
      TimeOfFirstFailure = (if Error p = None then Some t else TimeOfFirstFailure p)\<rparr>"
  by (simp add: updateResult_def Let_def Result_IsHealthy_def newMarshalableError_def)

lemma Error_updateResult:
  "Error (snd (updateResult h name dets dur err t)) = newMarshalableError err"
  by (simp add: updateResult_def Let_def split: option.splits)

section \<open>What each function does to the registry\<close>

lemma results_createCheckTask: "results (fst (createCheckTask h cfg)) = results h"
  by (simp add: createCheckTask_def Let_def split: option.splits)

lemma results_stopCheckTask: "results (stopCheckTask h name) = (results h)(name := None)"
  by (simp add: stopCheckTask_def Let_def)

lemma results_notify: "results (notify h x) = results h"
  by (simp add: notify_def)

lemma results_recv: "recv h c = Some h1 \<Longrightarrow> results h1 = results h"
  by (auto simp: recv_def split: if_splits)

lemma results_send: "send h c v = Some h1 \<Longrightarrow> results h1 = results h"
  by (auto simp: send_def split: if_splits)

lemma results_scheduleCheck: "results (scheduleCheck h task cfg) = results h"
  by (simp add: scheduleCheck_def)

lemma createCheckTask_Some:
  "Check cfg = Some c \<Longrightarrow>
   createCheckTask h cfg =
     (h\<lparr>stopChans := stopChans h @ [[]],
        checkTasks := (checkTasks h)
          (Name c \<mapsto> \<lparr>stopChan = length (stopChans h), ticker = None, check = c\<rparr>)\<rparr>,
      Return \<lparr>stopChan = length (stopChans h), ticker = None, check = c\<rparr>)"
  by (simp add: createCheckTask_def Let_def)

lemma RegisterCheck_valid:
  assumes "Check cfg = Some c" and "Name c \<noteq> []"
  shows "RegisterCheck h (Some cfg) now =
     (scheduleCheck
        (fst (createCheckTask
           (notify (fst (registered h cfg c now))
              (CheckRegistered (Name c) (snd (registered h cfg c now)))) cfg))
        \<lparr>stopChan = length (stopChans h), ticker = None, check = c\<rparr> cfg,
      Return None)"
proof -
  obtain h1 r where u: "registered h cfg c now = (h1, r)"
    by (cases "registered h cfg c now")
  then have l: "stopChans h1 = stopChans h"
    by (auto simp: registered_def updateResult_def Let_def)
  from u have "RegisterCheck h (Some cfg) now =
      (case createCheckTask (notify h1 (CheckRegistered (Name c) r)) cfg of
         (h3, Panic) \<Rightarrow> (h3, Panic)
       | (h3, Return task) \<Rightarrow> (scheduleCheck h3 task cfg, Return None))"
    using assms by (simp add: RegisterCheck_def registered_def Let_def)
  with u l assms(1) show ?thesis
    by (simp add: createCheckTask_Some notify_def)
qed

lemma RegisterCheck_invalid:
  "Check cfg = None \<or> (\<exists>c. Check cfg = Some c \<and> Name c = []) \<Longrightarrow>
   RegisterCheck h (Some cfg) now =
     (h, Return (Some (Errorf ''misconfigured check %v'' (Check cfg))))"
  by (auto simp: RegisterCheck_def)

lemma results_RegisterCheck_valid:
  assumes "Check cfg = Some c" and "Name c \<noteq> []"
  shows "results (fst (RegisterCheck h (Some cfg) now)) =
           (results h)(Name c \<mapsto> snd (registered h cfg c now))"
  using assms
  by (simp add: RegisterCheck_valid results_scheduleCheck results_createCheckTask results_notify
      registered_def updateResult_results)

lemma checkTasks_RegisterCheck_valid:
  assumes "Check cfg = Some c" and "Name c \<noteq> []"
  shows "checkTasks (fst (RegisterCheck h (Some cfg) now)) =
           (checkTasks h)(Name c \<mapsto> \<lparr>stopChan = length (stopChans h), ticker = None, check = c\<rparr>)"
  using assms
  by (simp add: RegisterCheck_valid scheduleCheck_def createCheckTask_Some notify_def
      registered_def updateResult_def Let_def)

lemma goroutines_RegisterCheck_valid:
  assumes "Check cfg = Some c" and "Name c \<noteq> []"
  shows "goroutines (fst (RegisterCheck h (Some cfg) now)) =
           (goroutines h)(length (stopChans h) \<mapsto>
              (\<lparr>stopChan = length (stopChans h), ticker = None, check = c\<rparr>, cfg))"
  using assms
  by (simp add: RegisterCheck_valid scheduleCheck_def createCheckTask_Some notify_def
      registered_def updateResult_def Let_def)

lemma registered_Error:
  "(Error (snd (registered h cfg c now)) \<noteq> None) = (\<not> InitiallyPassing cfg)"
  by (auto simp: registered_def updateResult_def Let_def Result_IsHealthy_def
      newMarshalableError_def split: option.splits)

lemma maps_checkAndUpdateResult:
  "checkTasks (fst (checkAndUpdateResult h task t ex)) = checkTasks h \<and>
   dom (results (fst (checkAndUpdateResult h task t ex))) =
     (case ex of Panicked \<Rightarrow> dom (results h)
               | Returned dets dur err \<Rightarrow> insert (Name (check task)) (dom (results h)))"
  by (cases ex)
     (simp_all add: checkAndUpdateResult_def Let_def split_beta notify_def updateResult_def)

lemma maps_Deregister:
  "Deregister h name = Some h1 \<Longrightarrow> results h1 = results h \<and> checkTasks h1 = checkTasks h"
  by (auto simp: Deregister_def send_def split: option.splits if_splits)

lemma maps_runCheckOrStop_StopCase:
  "runCheckOrStop h task StopCase = Some (h1, x) \<Longrightarrow>
   results h1 = (results h)(Name (check task) := None) \<and>
   checkTasks h1 = (checkTasks h)(Name (check task) := None)"
  by (auto simp: runCheckOrStop_def recv_def stopCheckTask_def Let_def
      split: option.splits if_splits)

lemma maps_runCheckOrStop_TimerCase:
  "runCheckOrStop h task (TimerCase t ex) = Some (h1, x) \<Longrightarrow>
   h1 = fst (checkAndUpdateResult h task t ex)"
  by (auto simp: runCheckOrStop_def split: prod.splits exit.splits)

lemma maps_iteration:
  assumes "iteration h g sel = Some (h1, x)"
  shows "\<exists>task cfg h0 y. goroutines h g = Some (task, cfg) \<and>
           runCheckOrStop h task sel = Some (h0, y) \<and>
           results h1 = results h0 \<and> checkTasks h1 = checkTasks h0"
proof -
  from assms obtain task cfg h0 y where
    g: "goroutines h g = Some (task, cfg)" and
    r: "runCheckOrStop h task sel = Some (h0, y)"
    by (auto simp: iteration_def split: option.splits prod.splits)
  from assms g r have "results h1 = results h0 \<and> checkTasks h1 = checkTasks h0"
    by (auto simp: iteration_def Let_def reportResults_def notify_def
        split: exit.splits bool.splits if_splits)
  with g r show ?thesis by blast
qed

lemma dom_upd_None: "dom (m(k := None)) = dom m - {k}"
  by auto

lemma runCheckOrStop_Panicked:
  "runCheckOrStop h task (TimerCase t Panicked) =
     Some (notify h (CheckStarted (Name (check task))), Panic)"
  by (simp add: runCheckOrStop_def checkAndUpdateResult_def)

lemma runCheckOrStop_Returned:
  "runCheckOrStop h task (TimerCase t (Returned dets dur err)) =
     Some (notify (fst (updateResult (notify h (CheckStarted (Name (check task))))
                          (Name (check task)) dets dur err t))
             (CheckCompleted (Name (check task))
                (snd (updateResult (notify h (CheckStarted (Name (check task))))
                        (Name (check task)) dets dur err t))),
           Return True)"
  by (simp add: runCheckOrStop_def checkAndUpdateResult_def Let_def split_beta)

section \<open>Invariants of the reachable states\<close>

lemma updateResult_stored_ok:
  assumes "\<And>p. results h name = Some p \<Longrightarrow> stored_ok p"
  shows "stored_ok (snd (updateResult h name d dur e t))"
proof (cases "results h name")
  case None
  then show ?thesis
    by (cases e) (simp_all add: updateResult_def Let_def stored_ok_def
        Result_IsHealthy_def newMarshalableError_def)
next
  case (Some p)
  with assms have "stored_ok p" by simp
  with Some show ?thesis
    by (cases e) (auto simp: updateResult_def Let_def stored_ok_def
        Result_IsHealthy_def newMarshalableError_def)
qed

lemma reachable_stored_ok:
  "reachable h \<Longrightarrow> results h n = Some r \<Longrightarrow> stored_ok r"
proof (induction arbitrary: n r rule: reachable.induct)
  case reach_New
  then show ?case by (simp add: New_def)
next
  case (reach_updateResult h name dets dur err t)
  then show ?case
    using updateResult_stored_ok [of h name dets dur err t]
    by (auto simp: updateResult_results split: if_splits)
next
  case (reach_createCheckTask h cfg)
  then show ?case by (simp add: results_createCheckTask)
next
  case (reach_stopCheckTask h name)
  then show ?case by (auto simp: results_stopCheckTask split: if_splits)
next
  case (reach_notify h x)
  then show ?case by (simp add: results_notify)
next
  case (reach_recv h c h1)
  then show ?case by (simp add: results_recv)
next
  case (reach_send h c v h1)
  then show ?case by (simp add: results_send)
next
  case (reach_goroutines h gs)
  then show ?case by simp
next
  case (reach_registering h cs)
  then show ?case by simp
qed

lemma reachable_tasks_ok: "reachable h \<Longrightarrow> tasks_ok h"
proof (induction rule: reachable.induct)
  case reach_New
  then show ?case by (simp add: tasks_ok_def New_def)
next
  case (reach_updateResult h name dets dur err t)
  then show ?case by (simp add: tasks_ok_def updateResult_def Let_def)
next
  case (reach_createCheckTask h cfg)
  then show ?case
    by (auto simp: tasks_ok_def createCheckTask_def Let_def less_Suc_eq split: option.splits if_splits)
next
  case (reach_stopCheckTask h name)
  then show ?case by (auto simp: tasks_ok_def stopCheckTask_def Let_def split: if_splits)
next
  case (reach_notify h x)
  then show ?case by (simp add: tasks_ok_def notify_def)
next
  case (reach_recv h c h1)
  then show ?case by (auto simp: tasks_ok_def recv_def split: if_splits)
next
  case (reach_send h c v h1)
  then show ?case by (auto simp: tasks_ok_def send_def split: if_splits)
next
  case (reach_goroutines h gs)
  then show ?case by (simp add: tasks_ok_def)
next
  case (reach_registering h cs)
  then show ?case by (simp add: tasks_ok_def)
qed

lemma reachable_scheduleCheck: "reachable h \<Longrightarrow> reachable (scheduleCheck h task cfg)"
  unfolding scheduleCheck_def by (rule reach_goroutines)

lemma reachable_reportResults: "reachable h \<Longrightarrow> reachable (reportResults h)"
  unfolding reportResults_def by (rule reach_notify)

lemma reachable_RegisterCheck:
  assumes "reachable h"
  shows "reachable (fst (RegisterCheck h cfgp now))"
proof (cases cfgp)
  case None
  with assms show ?thesis by (simp add: RegisterCheck_def)
next
  case (Some cfg)
  show ?thesis
  proof (cases "Check cfg = None \<or> (\<exists>c. Check cfg = Some c \<and> Name c = [])")
    case True
    with Some assms show ?thesis by (simp add: RegisterCheck_invalid)
  next
    case False
    then obtain c where c: "Check cfg = Some c" "Name c \<noteq> []" by auto
    have "reachable (fst (createCheckTask
           (notify (fst (registered h cfg c now))
              (CheckRegistered (Name c) (snd (registered h cfg c now)))) cfg))"
      unfolding registered_def
      by (intro reach_createCheckTask reach_notify reach_updateResult assms)
    with Some c show ?thesis
      by (simp add: RegisterCheck_valid reachable_scheduleCheck)
  qed
qed

lemma reachable_Deregister: "reachable h \<Longrightarrow> Deregister h name = Some h1 \<Longrightarrow> reachable h1"
  by (auto simp: Deregister_def split: option.splits intro: reach_send)

lemma reachable_checkAndUpdateResult:
  "reachable h \<Longrightarrow> reachable (fst (checkAndUpdateResult h task t ex))"
  by (cases ex) (auto simp: checkAndUpdateResult_def Let_def split_beta
      intro!: reach_notify reach_updateResult)

lemma reachable_runCheckOrStop:
  "reachable h \<Longrightarrow> runCheckOrStop h task sel = Some (h1, x) \<Longrightarrow> reachable h1"
proof (cases sel)
  case StopCase
  assume "reachable h" "runCheckOrStop h task sel = Some (h1, x)"
  with StopCase show ?thesis
    by (auto simp: runCheckOrStop_def split: option.splits intro: reach_stopCheckTask reach_recv)
next
  case (TimerCase t ex)
  assume r: "reachable h" and s: "runCheckOrStop h task sel = Some (h1, x)"
  from s TimerCase have "h1 = fst (checkAndUpdateResult h task t ex)"
    by (auto simp: runCheckOrStop_def split: prod.splits exit.splits)
  with r show ?thesis by (simp add: reachable_checkAndUpdateResult)
qed

lemma reachable_iteration:
  assumes "reachable h" and "iteration h g sel = Some (h1, x)"
  shows "reachable h1"
proof -
  from assms(2) obtain task cfg h0 y where
    g: "goroutines h g = Some (task, cfg)" and
    r: "runCheckOrStop h task sel = Some (h0, y)"
    by (auto simp: iteration_def split: option.splits prod.splits)
  from assms(1) r have r0: "reachable h0" by (rule reachable_runCheckOrStop)
  from assms(2) g r have
    "h1 = h0 \<or> (\<exists>gs. h1 = h0\<lparr>goroutines := gs\<rparr>) \<or> h1 = reportResults h0
       \<or> (\<exists>gs. h1 = (reportResults h0)\<lparr>goroutines := gs\<rparr>)"
    by (auto simp: iteration_def Let_def split: exit.splits bool.splits if_splits)
  with r0 show ?thesis
    by (auto intro: reach_goroutines reachable_reportResults)
qed

lemma reachable_RegisterCheck_first:
  "reachable h \<Longrightarrow> reachable (RegisterCheck_first h cfg chk now)"
  unfolding RegisterCheck_first_def registered_def
  by (intro reach_notify reach_updateResult)

lemma reachable_RegisterCheck_second:
  assumes "reachable h"
  shows "reachable (fst (RegisterCheck_second h cfg))"
proof -
  have "reachable (fst (createCheckTask h cfg))"
    by (rule reach_createCheckTask [OF assms])
  then show ?thesis
    by (cases "createCheckTask h cfg")
       (auto simp: RegisterCheck_second_def reachable_scheduleCheck split: exit.splits)
qed

lemma RegisterCheck_split:
  assumes "Check cfg = Some chk" and "Name chk \<noteq> []"
  shows "RegisterCheck h (Some cfg) now =
           RegisterCheck_second (RegisterCheck_first h cfg chk now) cfg"
  using assms
  by (simp add: RegisterCheck_def RegisterCheck_first_def RegisterCheck_second_def
      registered_def Let_def split_beta)

lemma reachable_step: "reachable h \<Longrightarrow> step h e = Some (h1, x) \<Longrightarrow> reachable h1"
proof (cases e)
  case (CallRegisterCheck cfgp now)
  assume r: "reachable h" and s: "step h e = Some (h1, x)"
  from s CallRegisterCheck have
    "h1 = h \<or> (\<exists>cfg chk cs. h1 = (RegisterCheck_first h cfg chk now)\<lparr>registering := cs\<rparr>)"
    by (auto split: option.splits if_splits)
  with r show ?thesis
    by (auto intro: reach_registering reachable_RegisterCheck_first)
next
  case (ReturnRegisterCheck cfg)
  assume r: "reachable h" and s: "step h e = Some (h1, x)"
  from s ReturnRegisterCheck have
    "h1 = fst (RegisterCheck_second (h\<lparr>registering := remove1 cfg (registering h)\<rparr>) cfg)"
    by (auto split: if_splits prod.splits exit.splits)
  with r show ?thesis
    by (simp add: reachable_RegisterCheck_second reach_registering)
next
  case (CallDeregister name)
  assume "reachable h" "step h e = Some (h1, x)"
  with CallDeregister show ?thesis
    by (auto split: option.splits intro: reachable_Deregister)
next
  case (LoopRound g sel)
  assume "reachable h" "step h e = Some (h1, x)"
  with LoopRound show ?thesis by (auto intro: reachable_iteration)
qed

lemma reachable_run: "reachable h \<Longrightarrow> run h es = Some (h1, x) \<Longrightarrow> reachable h1"
proof (induction es arbitrary: h)
  case Nil
  then show ?case by simp
next
  case (Cons e es)
  from Cons.prems(2) obtain h0 y where s: "step h e = Some (h0, y)"
    by (auto split: option.splits)
  with Cons.prems(1) have r0: "reachable h0" by (rule reachable_step)
  show ?case
  proof (cases y)
    case (Return u)
    with s Cons.prems(2) have "run h0 es = Some (h1, x)" by simp
    with r0 show ?thesis by (rule Cons.IH)
  next
    case Panic
    with s Cons.prems(2) have "h1 = h0" by (auto split: if_splits)
    with r0 show ?thesis by simp
  qed
qed

section \<open>The loops of \<^verbatim>\<open>Results\<close> and \<^verbatim>\<open>IsHealthy\<close>\<close>

lemma foldl_allHealthy:
  "foldl (\<lambda>healthy k. case res k of None \<Rightarrow> healthy
                                  | Some v \<Rightarrow> healthy \<and> Result_IsHealthy v) b ks =
     (b \<and> (\<forall>k\<in>set ks. \<forall>v. res k = Some v \<longrightarrow> Result_IsHealthy v))"
  by (induction ks arbitrary: b) (auto split: option.splits)

lemma allHealthy_iff:
  "allHealthy res ks = (\<forall>k\<in>set ks. \<forall>v. res k = Some v \<longrightarrow> Result_IsHealthy v)"
  by (simp add: allHealthy_def foldl_allHealthy)

lemma snd_foldl_Results:
  "snd (foldl (\<lambda>(res, healthy) k.
            case m k of
              None \<Rightarrow> (res, healthy)
            | Some v \<Rightarrow> (res(k \<mapsto> v), healthy \<and> Result_IsHealthy v)) (acc, b) ks) =
     (b \<and> (\<forall>k\<in>set ks. \<forall>v. m k = Some v \<longrightarrow> Result_IsHealthy v))"
  by (induction ks arbitrary: acc b) (auto split: option.splits)

lemma fst_foldl_Results:
  "fst (foldl (\<lambda>(res, healthy) k.
            case m k of
              None \<Rightarrow> (res, healthy)
            | Some v \<Rightarrow> (res(k \<mapsto> v), healthy \<and> Result_IsHealthy v)) (acc, b) ks) x =
     (if x \<in> set ks \<and> m x \<noteq> None then m x else acc x)"
  by (induction ks arbitrary: acc b) (auto split: option.splits)

lemma Results_eq:
  "Results h ks =
     (results h |` set ks, \<forall>k\<in>set ks. \<forall>v. results h k = Some v \<longrightarrow> Result_IsHealthy v)"
proof -
  have "fst (Results h ks) = results h |` set ks"
    by (rule ext) (auto simp: Results_def fst_foldl_Results restrict_map_def)
  moreover have "snd (Results h ks) =
      (\<forall>k\<in>set ks. \<forall>v. results h k = Some v \<longrightarrow> Result_IsHealthy v)"
    by (simp add: Results_def snd_foldl_Results)
  ultimately show ?thesis by (cases "Results h ks") simp
qed

lemma all_keys_iff:
  assumes "set ks = dom m"
  shows "(\<forall>k\<in>set ks. \<forall>v. m k = Some v \<longrightarrow> P v) = (\<forall>r\<in>ran m. P r)"
  using assms by (auto simp: ran_def dom_def)

lemma restrict_dom: "m |` dom m = m"
  by (rule ext) (auto simp: restrict_map_def dom_def)

section \<open>Facts about the example values\<close>

lemmas eval_defs = RegisterCheck_def updateResult_def createCheckTask_def scheduleCheck_def
  notify_def stopCheckTask_def stop_def Deregister_def send_def recv_def runCheckOrStop_def
  checkAndUpdateResult_def iteration_def reportResults_def copyResultsMap_def
  Result_IsHealthy_def newMarshalableError_def New_def cfg_a_def check_a_def Let_def

lemma registered_a_result:
  "results registered_a ''a'' =
     Some \<lparr>Details = initialResultMsg, Error = Some (Marshalable (ErrorString initialResultMsg)),
           Timestamp = 5, Duration = 0, ContiguousFailures = 1, TimeOfFirstFailure = Some 5\<rparr>"
  by (simp add: registered_a_def RegisterCheck_def cfg_a_def check_a_def updateResult_def
      Let_def New_def Result_IsHealthy_def newMarshalableError_def notify_def createCheckTask_def
      scheduleCheck_def)

lemma reachable_registered_a: "reachable registered_a"
  unfolding registered_a_def by (intro reachable_RegisterCheck reach_New)

lemma results_two_results:
  "results two_results =
     [''a'' \<mapsto> \<lparr>Details = ''down'', Error = Some (Marshalable (ErrorString ''boom'')),
                 Timestamp = 1, Duration = 1, ContiguousFailures = 1,
                 TimeOfFirstFailure = Some 1\<rparr>,
      ''b'' \<mapsto> \<lparr>Details = ''up'', Error = None, Timestamp = 2, Duration = 1,
                 ContiguousFailures = 0, TimeOfFirstFailure = None\<rparr>]"
  by (rule ext)
     (simp add: two_results_def record_all_def record_outcome_def failed_at_def passed_at_def
      updateResult_def Let_def New_def Result_IsHealthy_def newMarshalableError_def)

section \<open>Failure streaks\<close>

lemma sint_succ:
  fixes a :: "64 word"
  assumes "0 \<le> sint a" and "sint a < 2 ^ 63 - 1"
  shows "sint (a + 1) = sint a + 1"
proof -
  have "sint (a + 1) = signed_take_bit 63 (sint a + 1)"
    by (simp add: sint_word_ariths)
  also have "\<dots> = sint a + 1"
    using assms by (intro signed_take_bit_int_eq_self) auto
  finally show ?thesis .
qed

lemma sint_add_of_nat:
  fixes a :: "64 word"
  shows "0 \<le> sint a \<Longrightarrow> sint a + int n < 2 ^ 63 \<Longrightarrow> sint (a + of_nat n) = sint a + int n"
proof (induction n)
  case 0
  then show ?case by simp
next
  case (Suc n)
  then have ih: "sint (a + of_nat n) = sint a + int n" by simp
  have "a + of_nat (Suc n) = (a + of_nat n) + 1" by simp
  moreover have "sint ((a + of_nat n) + 1) = sint (a + of_nat n) + 1"
    using Suc.prems ih by (intro sint_succ) auto
  ultimately show ?case using ih by (simp add: ac_simps)
qed

lemma not_all_failing: "xs \<noteq> [] \<Longrightarrow> \<not> failing (last xs) \<Longrightarrow> \<not> list_all failing xs"
  by (auto simp: list_all_iff)

lemma streak_step:
  assumes "streak_of r0 xs (results h n)"
  shows "streak_of r0 (xs @ [x]) (results (record_outcome h (n, x)) n)"
proof (cases "o_err x")
  case None
  then have "\<not> failing x" by (simp add: failing_def)
  with None show ?thesis
    by (simp add: streak_of_def record_outcome_def updateResult_stored updateResult_healthy
        failing_suffix_snoc failing_def carried_count_def carried_over_def
        split: option.splits)
next
  case (Some e)
  then have fx: "failing x" by (simp add: failing_def)
  show ?thesis
  proof (cases "xs = []")
    case True
    with assms have r0: "results h n = r0" by (simp add: streak_of_def)
    show ?thesis
    proof (cases r0)
      case None
      with r0 Some True fx show ?thesis
        by (simp add: streak_of_def record_outcome_def updateResult_stored
            updateResult_failing_first failing_suffix_def carried_count_def carried_over_def)
    next
      case p: (Some p)
      with r0 Some True fx show ?thesis
        by (simp add: streak_of_def record_outcome_def updateResult_stored
            updateResult_failing_next failing_suffix_def carried_count_def carried_over_def
            carried_start_def)
    qed
  next
    case False
    with assms obtain p where p: "results h n = Some p"
      "(Error p \<noteq> None) = failing (last xs)"
      "ContiguousFailures p = carried_count r0 xs + of_nat (length (failing_suffix xs))"
      "TimeOfFirstFailure p =
         (if carried_over r0 xs then carried_start r0
          else (case failing_suffix xs of [] \<Rightarrow> None | y # _ \<Rightarrow> Some (o_time y)))"
      by (auto simp: streak_of_def)
    have cc: "carried_count r0 (xs @ [x]) = carried_count r0 xs"
      using fx by (simp add: carried_count_def split: option.splits)
    have co: "carried_over r0 (xs @ [x]) = carried_over r0 xs"
      using fx by (simp add: carried_over_def split: option.splits)
    have cf: "ContiguousFailures (snd (updateResult h n (o_details x) (o_duration x) (Some e) (o_time x))) =
        carried_count r0 (xs @ [x]) + of_nat (length (failing_suffix (xs @ [x])))"
      using p(1) p(3) fx by (simp add: updateResult_failing_next failing_suffix_snoc cc)
    have tf: "TimeOfFirstFailure (snd (updateResult h n (o_details x) (o_duration x) (Some e) (o_time x))) =
        (if carried_over r0 (xs @ [x]) then carried_start r0
         else (case failing_suffix (xs @ [x]) of [] \<Rightarrow> None | y # _ \<Rightarrow> Some (o_time y)))"
    proof (cases "Error p = None")
      case True
      with p(2) have nf: "\<not> failing (last xs)" by simp
      with False have "failing_suffix xs = []" by (simp add: failing_suffix_Nil_iff)
      moreover from False nf have "\<not> list_all failing xs" by (rule not_all_failing)
      then have "\<not> carried_over r0 xs" by (simp add: carried_over_def split: option.splits)
      ultimately show ?thesis
        using p(1) True fx by (simp add: updateResult_failing_next failing_suffix_snoc co)
    next
      case f: False
      with p(2) have "failing (last xs)" by simp
      with False have "failing_suffix xs \<noteq> []" by (simp add: failing_suffix_Nil_iff)
      then obtain y ys where "failing_suffix xs = y # ys" by (cases "failing_suffix xs") auto
      then show ?thesis
        using p(1) p(4) f fx by (auto simp: updateResult_failing_next failing_suffix_snoc co)
    qed
    have er: "Error (snd (updateResult h n (o_details x) (o_duration x) (Some e) (o_time x))) \<noteq> None"
      by (simp add: Error_updateResult newMarshalableError_def)
    from cf tf er fx Some show ?thesis
      by (simp add: streak_of_def record_outcome_def updateResult_stored)
  qed
qed

lemma streak_record_all:
  "streak_of (results h n) (outcomes_for n us) (results (record_all h us) n)"
proof (induction us rule: rev_induct)
  case Nil
  then show ?case by (simp add: streak_of_def outcomes_for_def record_all_def)
next
  case (snoc u us)
  show ?case
  proof (cases "fst u = n")
    case True
    then have "u = (n, snd u)" by (cases u) simp
    with snoc streak_step [of "results h n" "outcomes_for n us" "record_all h us" n "snd u"] True
    show ?thesis by (simp add: outcomes_for_snoc record_all_snoc)
  next
    case False
    with snoc show ?thesis
      by (simp add: outcomes_for_snoc record_all_snoc results_record_outcome_other)
  qed
qed

lemma reachable_record_all: "reachable h \<Longrightarrow> reachable (record_all h us)"
  by (induction us rule: rev_induct)
     (simp_all add: record_all_def record_outcome_def reach_updateResult)

lemma results_replicate_failed:
  "results (record_all New (replicate (Suc n) (a, failed_at t))) a =
     Some \<lparr>Details = ''down'', Error = Some (Marshalable (ErrorString ''boom'')),
           Timestamp = t, Duration = 1, ContiguousFailures = of_nat (Suc n),
           TimeOfFirstFailure = Some t\<rparr>"
proof (induction n)
  case 0
  show ?case
    by (simp add: record_all_def record_outcome_def failed_at_def updateResult_stored
        updateResult_failing_first New_def)
next
  case (Suc n)
  have "replicate (Suc (Suc n)) (a, failed_at t) = replicate (Suc n) (a, failed_at t) @ [(a, failed_at t)]"
    by (simp add: replicate_append_same)
  then show ?case
    using Suc
    by (simp only: record_all_snoc)
       (simp add: record_outcome_def failed_at_def updateResult_stored updateResult_failing_next
         ac_simps)
qed

lemma results_many_failures:
  "results many_failures ''a'' =
     Some \<lparr>Details = ''down'', Error = Some (Marshalable (ErrorString ''boom'')),
           Timestamp = 0, Duration = 1, ContiguousFailures = 9223372036854775807,
           TimeOfFirstFailure = Some 0\<rparr>"
proof -
  have eq: "(2 :: nat) ^ 63 - 1 = Suc 9223372036854775806" by simp
  have "results (record_all New (replicate (Suc 9223372036854775806) (''a'', failed_at 0))) ''a'' =
     Some \<lparr>Details = ''down'', Error = Some (Marshalable (ErrorString ''boom'')),
           Timestamp = 0, Duration = 1, ContiguousFailures = of_nat (Suc 9223372036854775806),
           TimeOfFirstFailure = Some 0\<rparr>"
    by (rule results_replicate_failed)
  moreover have "(of_nat (Suc 9223372036854775806) :: 64 word) = 9223372036854775807" by simp
  ultimately show ?thesis unfolding many_failures_def eq by (simp only:)
qed

section \<open>The invariant while the count stays in range\<close>

lemma within_stored:
  "reached_within n h \<Longrightarrow> n < 2 ^ 63 \<Longrightarrow> results h name = Some r \<Longrightarrow>
   Result_invariant r \<and> count_within n r"
proof (induction arbitrary: name r rule: reached_within.induct)
  case within_New
  then show ?case by (simp add: New_def)
next
  case (within_updateResult n h nm dets dur err t)
  from within_updateResult.prems(1) have n: "n < 2 ^ 63" by simp
  show ?case
  proof (cases "name = nm")
    case False
    with within_updateResult.prems(2) have "results h name = Some r"
      by (simp add: updateResult_results)
    with within_updateResult.IH n have "Result_invariant r \<and> count_within n r" by blast
    then show ?thesis by (simp add: count_within_def)
  next
    case True
    with within_updateResult.prems(2)
    have r: "r = snd (updateResult h nm dets dur err t)"
      by (simp add: updateResult_results)
    show ?thesis
    proof (cases err)
      case None
      with r show ?thesis
        by (simp add: updateResult_healthy Result_invariant_def count_within_def)
    next
      case (Some e)
      show ?thesis
      proof (cases "results h nm")
        case None
        with Some r show ?thesis
          by (simp add: updateResult_failing_first Result_invariant_def count_within_def)
      next
        case p: (Some p)
        with within_updateResult.IH n have ip: "Result_invariant p" "count_within n p" by blast+
        from ip(2) within_updateResult.prems(1)
        have "sint (ContiguousFailures p + 1) = sint (ContiguousFailures p) + 1"
          by (intro sint_succ) (auto simp: count_within_def)
        with ip p Some r show ?thesis
          by (auto simp: updateResult_failing_next Result_invariant_def count_within_def)
      qed
    qed
  qed
next
  case (within_createCheckTask n h cfg)
  then show ?case by (simp add: results_createCheckTask)
next
  case (within_stopCheckTask n h nm)
  then show ?case by (auto simp: results_stopCheckTask split: if_splits)
next
  case (within_notify n h x)
  then show ?case by (simp add: results_notify)
next
  case (within_recv n h c h1)
  then show ?case by (simp add: results_recv)
next
  case (within_send n h c v h1)
  then show ?case by (simp add: results_send)
next
  case (within_goroutines n h gs)
  then show ?case by simp
next
  case (within_registering n h cs)
  then show ?case by simp
next
  case (within_more n h)
  from within_more.prems(1) have "n < 2 ^ 63" by simp
  with within_more.IH within_more.prems(2) have "Result_invariant r \<and> count_within n r" by blast
  then show ?case by (simp add: count_within_def)
qed

lemma within_reachable: "reached_within n h \<Longrightarrow> reachable h"
  by (induction rule: reached_within.induct) (auto intro: reachable.intros)

lemma reachable_within: "reachable h \<Longrightarrow> \<exists>n. reached_within n h"
  by (induction rule: reachable.induct) (auto intro: reached_within.intros)

lemma within_RegisterCheck:
  assumes "reached_within n h"
  shows "reached_within (Suc n) (fst (RegisterCheck h cfgp now))"
proof (cases cfgp)
  case None
  with assms show ?thesis by (simp add: RegisterCheck_def within_more)
next
  case (Some cfg)
  show ?thesis
  proof (cases "Check cfg = None \<or> (\<exists>c. Check cfg = Some c \<and> Name c = [])")
    case True
    with Some assms show ?thesis by (simp add: RegisterCheck_invalid within_more)
  next
    case False
    then obtain c where c: "Check cfg = Some c" "Name c \<noteq> []" by auto
    have "reached_within (Suc n) (fst (createCheckTask
           (notify (fst (registered h cfg c now))
              (CheckRegistered (Name c) (snd (registered h cfg c now)))) cfg))"
      unfolding registered_def
      by (intro within_createCheckTask within_notify within_updateResult assms)
    with Some c show ?thesis
      by (simp add: RegisterCheck_valid scheduleCheck_def within_goroutines)
  qed
qed

section \<open>The example executions\<close>

lemmas step_defs = RegisterCheck_first_def RegisterCheck_second_def registered_def

lemma run_orphan_trace:
  "map_option snd (run New orphan_trace) = Some (Return ()) \<and>
   results (state_after orphan_trace) =
     [''a'' \<mapsto> \<lparr>Details = ''up'', Error = None, Timestamp = 3, Duration = 1,
                 ContiguousFailures = 0, TimeOfFirstFailure = None\<rparr>] \<and>
   checkTasks (state_after orphan_trace) = Map.empty \<and>
   goroutines (state_after orphan_trace) =
     [0 \<mapsto> (\<lparr>stopChan = 0, ticker = Some 10, check = check_a\<rparr>, cfg_a)]"
  by (simp add: state_after_def eval_defs step_defs orphan_trace_def)

lemma run_reregister_trace:
  "map_option snd (run New reregister_trace) = Some (Return ()) \<and>
   results (state_after reregister_trace) =
     [''a'' \<mapsto> \<lparr>Details = ''up'', Error = None, Timestamp = 3, Duration = 1,
                 ContiguousFailures = 0, TimeOfFirstFailure = None\<rparr>] \<and>
   checkTasks (state_after reregister_trace) = Map.empty \<and>
   goroutines (state_after reregister_trace) =
     [1 \<mapsto> (\<lparr>stopChan = 1, ticker = Some 10, check = check_a\<rparr>, cfg_a)]"
  by (simp add: state_after_def eval_defs step_defs reregister_trace_def)

lemma run_overtaken_trace:
  "map_option snd (run New overtaken_trace) = Some (Return ()) \<and>
   results (state_after overtaken_trace) = Map.empty \<and>
   checkTasks (state_after overtaken_trace) =
     [''a'' \<mapsto> \<lparr>stopChan = 1, ticker = None, check = check_a\<rparr>]"
  by (simp add: state_after_def eval_defs step_defs overtaken_trace_def)

section \<open>The claims\<close>

subsection \<open>Failure streaks\<close>

text \<open>
  C1, as amended. Record any sequence of outcomes through \<^verbatim>\<open>updateResult\<close> on any
  registry \<open>h\<close>; calls for other names may come in between, and the record that
  \<^verbatim>\<open>RegisterCheck\<close> makes is one of the outcomes. Once an outcome was recorded for
  \<open>name\<close>, the stored \<open>ContiguousFailures\<close> is, in the wrapping arithmetic of
  \<^verbatim>\<open>int64\<close>, the count carried over from \<open>h\<close> plus the length of the maximal suffix of
  consecutive failing outcomes of \<open>name\<close> that ends at the latest one, and it is that
  sum as a number while the sum is below \<open>2\<^sup>6\<^sup>3\<close>. The count carried over is the count
  that \<open>h\<close> stored for \<open>name\<close> when every outcome of the sequence fails, and 0 otherwise.
  \<open>TimeOfFirstFailure\<close> is the one that \<open>h\<close> stored when \<open>h\<close> stored a failing result
  and every outcome of the sequence fails; otherwise it is the timestamp of the first
  outcome of the suffix, nil when the suffix is empty. When \<open>h\<close> is reachable and no
  streak of \<open>name\<close> is under way in it (no stored result, or a healthy one), and the
  suffix is shorter than \<open>2\<^sup>6\<^sup>3\<close>, the count is the length of the suffix and
  \<open>TimeOfFirstFailure\<close> is the timestamp of its first outcome.
\<close>

theorem updateResult_failure_streak:
  assumes "outcomes_for name us \<noteq> []"
  shows "\<exists>r. results (record_all h us) name = Some r \<and>
           ContiguousFailures r =
             carried_count (results h name) (outcomes_for name us) +
             of_nat (length (failing_suffix (outcomes_for name us))) \<and>
           (0 \<le> sint (carried_count (results h name) (outcomes_for name us)) \<and>
            sint (carried_count (results h name) (outcomes_for name us)) +
              int (length (failing_suffix (outcomes_for name us))) < 2 ^ 63 \<longrightarrow>
            sint (ContiguousFailures r) =
              sint (carried_count (results h name) (outcomes_for name us)) +
              int (length (failing_suffix (outcomes_for name us)))) \<and>
           TimeOfFirstFailure r =
             (if carried_over (results h name) (outcomes_for name us)
              then carried_start (results h name)
              else (case failing_suffix (outcomes_for name us) of
                      [] \<Rightarrow> None
                    | x # _ \<Rightarrow> Some (o_time x))) \<and>
           (reachable h \<and>
            (results h name = None \<or> (\<exists>p. results h name = Some p \<and> Result_IsHealthy p)) \<and>
            length (failing_suffix (outcomes_for name us)) < 2 ^ 63 \<longrightarrow>
            sint (ContiguousFailures r) = int (length (failing_suffix (outcomes_for name us))) \<and>
            TimeOfFirstFailure r =
              (case failing_suffix (outcomes_for name us) of
                 [] \<Rightarrow> None
               | x # _ \<Rightarrow> Some (o_time x)))"
proof -
  have "streak_of (results h name) (outcomes_for name us) (results (record_all h us) name)"
    by (rule streak_record_all)
  with assms obtain r where r: "results (record_all h us) name = Some r"
    "ContiguousFailures r =
       carried_count (results h name) (outcomes_for name us) +
       of_nat (length (failing_suffix (outcomes_for name us)))"
    "TimeOfFirstFailure r =
       (if carried_over (results h name) (outcomes_for name us)
        then carried_start (results h name)
        else (case failing_suffix (outcomes_for name us) of
                [] \<Rightarrow> None
              | x # _ \<Rightarrow> Some (o_time x)))"
    by (auto simp: streak_of_def)
  from r(2) have s: "0 \<le> sint (carried_count (results h name) (outcomes_for name us)) \<and>
      sint (carried_count (results h name) (outcomes_for name us)) +
        int (length (failing_suffix (outcomes_for name us))) < 2 ^ 63 \<longrightarrow>
      sint (ContiguousFailures r) =
        sint (carried_count (results h name) (outcomes_for name us)) +
        int (length (failing_suffix (outcomes_for name us)))"
    by (simp add: sint_add_of_nat)
  have n: "sint (ContiguousFailures r) = int (length (failing_suffix (outcomes_for name us))) \<and>
      TimeOfFirstFailure r =
        (case failing_suffix (outcomes_for name us) of
           [] \<Rightarrow> None
         | x # _ \<Rightarrow> Some (o_time x))"
    if a: "reachable h"
      and b: "results h name = None \<or> (\<exists>p. results h name = Some p \<and> Result_IsHealthy p)"
      and c: "length (failing_suffix (outcomes_for name us)) < 2 ^ 63"
  proof -
    have z: "carried_count (results h name) (outcomes_for name us) = 0 \<and>
        \<not> carried_over (results h name) (outcomes_for name us)"
    proof (cases "results h name")
      case None
      then show ?thesis by (simp add: carried_count_def carried_over_def)
    next
      case (Some p)
      with a have "stored_ok p" by (rule reachable_stored_ok)
      moreover from Some b have "Error p = None" by (simp add: Result_IsHealthy_def)
      ultimately show ?thesis
        using Some by (simp add: carried_count_def carried_over_def stored_ok_def)
    qed
    from c have "int (length (failing_suffix (outcomes_for name us))) < 2 ^ 63"
      by (metis of_nat_less_iff of_nat_numeral of_nat_power)
    with s z have "sint (ContiguousFailures r) = int (length (failing_suffix (outcomes_for name us)))"
      by simp
    with r(3) z show ?thesis by simp
  qed
  from r s n show ?thesis by blast
qed

text \<open>
  Six records on a new registry, four of them for "db": failing at 10, passing at 20,
  failing at 30 and at 40. The streak is 2 and began at 30. And on the registry where
  "a" was registered at 5 as initially failing, one failing execution of "a" at 9: the
  count is 2 and the streak began at 5.
\<close>

theorem updateResult_failure_streak_witness:
  "outcomes_for ''db'' [(''db'', failed_at 10), (''web'', failed_at 11), (''db'', passed_at 20),
      (''db'', failed_at 30), (''web'', passed_at 31), (''db'', failed_at 40)] \<noteq> [] \<and>
   reachable New \<and> results New ''db'' = None \<and>
   length (failing_suffix (outcomes_for ''db'' [(''db'', failed_at 10), (''web'', failed_at 11),
      (''db'', passed_at 20), (''db'', failed_at 30), (''web'', passed_at 31),
      (''db'', failed_at 40)])) = 2 \<and>
   (\<exists>r. results (record_all New [(''db'', failed_at 10), (''web'', failed_at 11),
            (''db'', passed_at 20), (''db'', failed_at 30), (''web'', passed_at 31),
            (''db'', failed_at 40)]) ''db'' = Some r \<and>
        sint (ContiguousFailures r) = 2 \<and> TimeOfFirstFailure r = Some 30) \<and>
   outcomes_for ''a'' [(''a'', failed_at 9)] \<noteq> [] \<and>
   length (failing_suffix (outcomes_for ''a'' [(''a'', failed_at 9)])) = 1 \<and>
   (\<exists>r. results (record_all registered_a [(''a'', failed_at 9)]) ''a'' = Some r \<and>
        sint (ContiguousFailures r) = 2 \<and> TimeOfFirstFailure r = Some 5)"
proof -
  have b: "outcomes_for ''db'' [(''db'', failed_at 10), (''web'', failed_at 11),
      (''db'', passed_at 20), (''db'', failed_at 30), (''web'', passed_at 31),
      (''db'', failed_at 40)] = [failed_at 10, passed_at 20, failed_at 30, failed_at 40]"
    by (simp add: outcomes_for_def)
  then have b': "outcomes_for ''db'' [(''db'', failed_at 10), (''web'', failed_at 11),
      (''db'', passed_at 20), (''db'', failed_at 30), (''web'', passed_at 31),
      (''db'', failed_at 40)] \<noteq> []" by simp
  have c: "failing_suffix [failed_at 10, passed_at 20, failed_at 30, failed_at 40] =
      [failed_at 30, failed_at 40]"
    by (simp add: failing_suffix_def failing_def failed_at_def passed_at_def)
  have d: "o_time (failed_at 30) = 30" by (simp add: failed_at_def)
  have r0: "reachable New" by (rule reach_New)
  have n: "results New ''db'' = None" by (simp add: New_def)
  have l: "length (failing_suffix (outcomes_for ''db'' [(''db'', failed_at 10),
      (''web'', failed_at 11), (''db'', passed_at 20), (''db'', failed_at 30),
      (''web'', passed_at 31), (''db'', failed_at 40)])) = 2"
    by (simp only: b c) simp
  from updateResult_failure_streak [OF b', of New] r0 n
  have 1: "\<exists>r. results (record_all New [(''db'', failed_at 10), (''web'', failed_at 11),
            (''db'', passed_at 20), (''db'', failed_at 30), (''web'', passed_at 31),
            (''db'', failed_at 40)]) ''db'' = Some r \<and>
        sint (ContiguousFailures r) = 2 \<and> TimeOfFirstFailure r = Some 30"
    by (auto simp: b c d)
  have f: "outcomes_for ''a'' [(''a'', failed_at 9)] = [failed_at 9]"
    by (simp add: outcomes_for_def)
  then have f': "outcomes_for ''a'' [(''a'', failed_at 9)] \<noteq> []" by simp
  have g: "failing_suffix [failed_at 9] = [failed_at 9]" "failing (failed_at 9)"
    by (simp_all add: failing_suffix_def failing_def failed_at_def)
  have l': "length (failing_suffix (outcomes_for ''a'' [(''a'', failed_at 9)])) = 1"
    by (simp only: f g) simp
  from updateResult_failure_streak [OF f', of registered_a]
  have 2: "\<exists>r. results (record_all registered_a [(''a'', failed_at 9)]) ''a'' = Some r \<and>
        sint (ContiguousFailures r) = 2 \<and> TimeOfFirstFailure r = Some 5"
    by (auto simp: f g registered_a_result carried_count_def carried_over_def carried_start_def)
  from b' r0 n l 1 f' l' 2 show ?thesis by (intro conjI)
qed

text \<open>
  C1 as stated fails: "a" is registered at 5 with \<open>InitiallyPassing\<close> false, which
  returns nil, and its first execution, at 9, fails. The sequence of execution
  outcomes of "a" is that one failing outcome, so the suffix has length 1 and begins
  at 9; the stored result has the count 2 and the time of the first failure 5.
\<close>

theorem failure_streak_counterexample:
  "snd (RegisterCheck New (Some cfg_a) 5) = Return None \<and>
   registered_a = fst (RegisterCheck New (Some cfg_a) 5) \<and>
   results (fst (checkAndUpdateResult registered_a
                   \<lparr>stopChan = 0, ticker = None, check = check_a\<rparr> (o_time (failed_at 9))
                   (Returned (o_details (failed_at 9)) (o_duration (failed_at 9))
                      (o_err (failed_at 9))))) ''a'' =
     Some \<lparr>Details = ''down'', Error = Some (Marshalable (ErrorString ''boom'')),
           Timestamp = 9, Duration = 1, ContiguousFailures = 2,
           TimeOfFirstFailure = Some 5\<rparr> \<and>
   failing_suffix [failed_at 9] = [failed_at 9] \<and>
   int (length (failing_suffix [failed_at 9])) \<noteq> sint (2 :: 64 word) \<and>
   Some (o_time (failed_at 9)) \<noteq> Some (5 :: int)"
proof -
  have 1: "snd (RegisterCheck New (Some cfg_a) 5) = Return None"
    by (simp add: RegisterCheck_valid [of _ check_a] cfg_a_def check_a_def)
  have 2: "results (fst (checkAndUpdateResult registered_a
                   \<lparr>stopChan = 0, ticker = None, check = check_a\<rparr> (o_time (failed_at 9))
                   (Returned (o_details (failed_at 9)) (o_duration (failed_at 9))
                      (o_err (failed_at 9))))) ''a'' =
     Some \<lparr>Details = ''down'', Error = Some (Marshalable (ErrorString ''boom'')),
           Timestamp = 9, Duration = 1, ContiguousFailures = 2,
           TimeOfFirstFailure = Some 5\<rparr>"
    by (simp add: registered_a_def failed_at_def eval_defs)
  have 3: "failing_suffix [failed_at 9] = [failed_at 9]"
    by (simp add: failing_suffix_def failing_def failed_at_def)
  have 4: "Some (o_time (failed_at 9)) \<noteq> Some (5 :: int)"
    by (simp add: failed_at_def)
  from 1 2 3 4 show ?thesis by (simp add: registered_a_def)
qed

subsection \<open>The invariant of the stored results\<close>

text \<open>
  C2, as amended. \<open>ContiguousFailures\<close> is an \<^verbatim>\<open>int64\<close>. In a registry reached from
  the new one with fewer than \<open>2\<^sup>6\<^sup>3\<close> calls of \<^verbatim>\<open>updateResult\<close> (those of
  \<^verbatim>\<open>RegisterCheck\<close> and of the executions, in any interleaving), every stored result
  satisfies \<open>ContiguousFailures > 0\<close> iff \<open>Error \<noteq> nil\<close> iff
  \<open>TimeOfFirstFailure \<noteq> nil\<close>, and it is healthy iff its error is nil; and every
  call of \<^verbatim>\<open>updateResult\<close> that leaves the number of calls below \<open>2\<^sup>6\<^sup>3\<close> preserves
  the invariant.
\<close>

theorem stored_results_invariant:
  assumes "reached_within n h" and "n < 2 ^ 63"
  shows "(\<forall>name r. results h name = Some r \<longrightarrow>
            Result_invariant r \<and> Result_IsHealthy r = (Error r = None)) \<and>
         (Suc n < 2 ^ 63 \<longrightarrow>
            (\<forall>name dets dur err t k r.
               results (fst (updateResult h name dets dur err t)) k = Some r \<longrightarrow>
               Result_invariant r))"
proof (intro conjI allI impI)
  fix name r
  assume "results h name = Some r"
  with assms show "Result_invariant r" by (simp add: within_stored)
  show "Result_IsHealthy r = (Error r = None)" by (simp add: Result_IsHealthy_def)
next
  fix name dets dur err t k r
  assume b: "Suc n < 2 ^ 63"
    and s: "results (fst (updateResult h name dets dur err t)) k = Some r"
  from assms(1) have "reached_within (Suc n) (fst (updateResult h name dets dur err t))"
    by (rule within_updateResult)
  from this b s show "Result_invariant r" by (simp add: within_stored)
qed

text \<open>
  The registry after registering "a" is reached with one call: its stored result is
  failing with the count 1, and a passing execution stores a result with the count 0.
\<close>

theorem stored_results_invariant_witness:
  "reached_within 1 registered_a \<and> (1 :: nat) < 2 ^ 63 \<and> Suc 1 < 2 ^ 63 \<and>
   (\<exists>r. results registered_a ''a'' = Some r \<and> Result_invariant r \<and> \<not> Result_IsHealthy r \<and>
        ContiguousFailures r = 1) \<and>
   (\<exists>r. results (fst (updateResult registered_a ''a'' ''up'' 3 None 9)) ''a'' = Some r \<and>
        Result_invariant r \<and> ContiguousFailures r = 0)"
proof -
  have "reached_within (Suc 0) registered_a"
    unfolding registered_a_def by (intro within_RegisterCheck within_New)
  then have r: "reached_within 1 registered_a" by simp
  have b: "(1 :: nat) < 2 ^ 63" "Suc 1 < 2 ^ 63" by simp_all
  note inv = stored_results_invariant [OF r b(1)]
  from inv registered_a_result have 1: "\<exists>r. results registered_a ''a'' = Some r \<and> Result_invariant r \<and>
      \<not> Result_IsHealthy r \<and> ContiguousFailures r = 1"
    by (simp add: Result_IsHealthy_def)
  have "results (fst (updateResult registered_a ''a'' ''up'' 3 None 9)) ''a'' =
      Some \<lparr>Details = ''up'', Error = None, Timestamp = 9, Duration = 3,
            ContiguousFailures = 0, TimeOfFirstFailure = None\<rparr>"
    by (simp add: updateResult_stored updateResult_healthy)
  with inv b(2) have 2: "\<exists>r. results (fst (updateResult registered_a ''a'' ''up'' 3 None 9)) ''a'' = Some r \<and>
        Result_invariant r \<and> ContiguousFailures r = 0"
    by (metis Result.select_convs(5))
  from r b 1 2 show ?thesis by blast
qed

text \<open>
  C2 as stated fails: after \<open>2\<^sup>6\<^sup>3 - 1\<close> failing outcomes of "a" in a row, which is a
  reachable registry, one more failing call of \<^verbatim>\<open>updateResult\<close> adds 1 to the count
  \<open>2\<^sup>6\<^sup>3 - 1\<close>: it wraps to \<open>- 2\<^sup>6\<^sup>3\<close>, and the stored result has an error and a time
  of the first failure with a count that is not positive.
\<close>

theorem stored_results_counterexample:
  "reachable many_failures \<and>
   results (fst (updateResult many_failures ''a'' ''down'' 1 (Some (ErrorString ''boom'')) 0)) ''a'' =
     Some \<lparr>Details = ''down'', Error = Some (Marshalable (ErrorString ''boom'')),
           Timestamp = 0, Duration = 1, ContiguousFailures = 9223372036854775808,
           TimeOfFirstFailure = Some 0\<rparr> \<and>
   sint (9223372036854775808 :: 64 word) = - 9223372036854775808 \<and>
   \<not> Result_invariant
       \<lparr>Details = ''down'', Error = Some (Marshalable (ErrorString ''boom'')),
        Timestamp = 0, Duration = 1, ContiguousFailures = 9223372036854775808,
        TimeOfFirstFailure = Some 0\<rparr>"
proof -
  have 1: "reachable many_failures"
    unfolding many_failures_def by (intro reachable_record_all reach_New)
  have 2: "results (fst (updateResult many_failures ''a'' ''down'' 1 (Some (ErrorString ''boom'')) 0)) ''a'' =
     Some \<lparr>Details = ''down'', Error = Some (Marshalable (ErrorString ''boom'')),
           Timestamp = 0, Duration = 1, ContiguousFailures = 9223372036854775808,
           TimeOfFirstFailure = Some 0\<rparr>"
    by (simp add: updateResult_stored updateResult_failing_next [OF results_many_failures])
  have 3: "sint (9223372036854775808 :: 64 word) = - 9223372036854775808" by simp
  from 1 2 3 show ?thesis by (simp add: Result_invariant_def)
qed

subsection \<open>The aggregate health\<close>

text \<open>
  C3. \<^verbatim>\<open>IsHealthy()\<close> returns true iff every result of the current result map has
  a nil error (so it is true when no check is registered), and it returns the boolean
  that \<^verbatim>\<open>Results()\<close> returns on the same state, together with a copy of the whole
  map; \<open>ks\<close> and \<open>ks'\<close> are the orders in which the two loops visit the keys.
\<close>

theorem IsHealthy_all_results:
  assumes "set ks = dom (results h)" and "set ks' = dom (results h)"
  shows "health_IsHealthy h ks = (\<forall>r\<in>ran (results h). Error r = None) \<and>
         (dom (results h) = {} \<longrightarrow> health_IsHealthy h ks) \<and>
         Results h ks' = (results h, health_IsHealthy h ks)"
proof -
  from assms(1) have a: "health_IsHealthy h ks = (\<forall>r\<in>ran (results h). Result_IsHealthy r)"
    using all_keys_iff [OF assms(1), of Result_IsHealthy]
    by (simp add: health_IsHealthy_def allHealthy_iff)
  from assms(2) have b: "Results h ks' = (results h, \<forall>r\<in>ran (results h). Result_IsHealthy r)"
    using all_keys_iff [OF assms(2), of Result_IsHealthy]
    by (simp add: Results_eq restrict_dom)
  from a b show ?thesis by (auto simp: Result_IsHealthy_def ran_def dom_def)
qed

text \<open>
  With a failing "a" and a passing "b", both calls return false, in whatever order
  the keys are visited; on the new registry both return true.
\<close>

theorem IsHealthy_all_results_witness:
  "set [''a'', ''b''] = dom (results two_results) \<and>
   set [''b'', ''a''] = dom (results two_results) \<and>
   health_IsHealthy two_results [''a'', ''b''] = False \<and>
   Results two_results [''b'', ''a''] = (results two_results, False) \<and>
   set [] = dom (results New) \<and>
   health_IsHealthy New [] = True \<and>
   Results New [] = (results New, True)"
proof -
  have d: "set [''a'', ''b''] = dom (results two_results)"
    by (simp add: results_two_results insert_commute)
  have d': "set [''b'', ''a''] = dom (results two_results)"
    by (simp add: results_two_results)
  have e: "set [] = dom (results New)" by (simp add: New_def)
  have "results two_results ''a'' =
      Some \<lparr>Details = ''down'', Error = Some (Marshalable (ErrorString ''boom'')),
            Timestamp = 1, Duration = 1, ContiguousFailures = 1, TimeOfFirstFailure = Some 1\<rparr>"
    by (simp add: results_two_results)
  then have "\<lparr>Details = ''down'', Error = Some (Marshalable (ErrorString ''boom'')),
       Timestamp = 1, Duration = 1, ContiguousFailures = 1, TimeOfFirstFailure = Some 1\<rparr>
      \<in> ran (results two_results)"
    by (rule ranI)
  then have f: "\<not> (\<forall>r\<in>ran (results two_results). Error r = None)"
    by (rule_tac notI) (drule (1) bspec, simp)
  note t = IsHealthy_all_results [OF d d']
  note n = IsHealthy_all_results [OF e e]
  from t f have 1: "health_IsHealthy two_results [''a'', ''b''] = False" by blast
  from t 1 have 2: "Results two_results [''b'', ''a''] = (results two_results, False)"
    by (simp only:)
  have g: "dom (results New) = {}" by (simp add: New_def)
  from n g have 3: "health_IsHealthy New [] = True" by blast
  from n 3 have 4: "Results New [] = (results New, True)" by (simp only:)
  from d d' e 1 2 3 4 show ?thesis by (intro conjI)
qed

subsection \<open>An unhealthy outcome\<close>

text \<open>
  C4. In a reachable state, when \<^verbatim>\<open>updateResult\<close> records an unhealthy outcome
  (\<open>err \<noteq> nil\<close>): if no previous result exists for the name or the previous result was
  healthy, the new result has \<open>ContiguousFailures = 1\<close> and \<open>TimeOfFirstFailure\<close> is
  the timestamp of the new outcome; if the previous result was unhealthy, the new
  \<open>ContiguousFailures\<close> is the previous one plus 1 and \<open>TimeOfFirstFailure\<close> is the
  previous one, unchanged. The new result is the one stored and returned.
\<close>

theorem updateResult_unhealthy:
  assumes "reachable h" and "err \<noteq> None"
  shows "results (fst (updateResult h name dets dur err t)) name =
           Some (snd (updateResult h name dets dur err t)) \<and>
         (results h name = None \<or> (\<exists>p. results h name = Some p \<and> Result_IsHealthy p) \<longrightarrow>
            ContiguousFailures (snd (updateResult h name dets dur err t)) = 1 \<and>
            TimeOfFirstFailure (snd (updateResult h name dets dur err t)) = Some t) \<and>
         (\<forall>p. results h name = Some p \<and> \<not> Result_IsHealthy p \<longrightarrow>
            ContiguousFailures (snd (updateResult h name dets dur err t)) =
              ContiguousFailures p + 1 \<and>
            TimeOfFirstFailure (snd (updateResult h name dets dur err t)) =
              TimeOfFirstFailure p)"
proof -
  from assms(2) obtain e where e: "err = Some e" by auto
  have healthy_zero: "ContiguousFailures p = 0"
    if "results h name = Some p" "Result_IsHealthy p" for p
  proof -
    from assms(1) that(1) have "stored_ok p" by (rule reachable_stored_ok)
    with that(2) show ?thesis
      by (auto simp: stored_ok_def Result_invariant_def Result_IsHealthy_def)
  qed
  have first: "ContiguousFailures (snd (updateResult h name dets dur err t)) = 1 \<and>
      TimeOfFirstFailure (snd (updateResult h name dets dur err t)) = Some t"
    if "results h name = None \<or> (\<exists>p. results h name = Some p \<and> Result_IsHealthy p)"
    using that
  proof
    assume "results h name = None"
    then show ?thesis by (simp add: e updateResult_failing_first)
  next
    assume "\<exists>p. results h name = Some p \<and> Result_IsHealthy p"
    then obtain p where p: "results h name = Some p" "Result_IsHealthy p" by blast
    from p have "ContiguousFailures p = 0" by (rule healthy_zero)
    with p show ?thesis
      by (simp add: e updateResult_failing_next Result_IsHealthy_def)
  qed
  have nxt: "ContiguousFailures (snd (updateResult h name dets dur err t)) =
        ContiguousFailures p + 1 \<and>
      TimeOfFirstFailure (snd (updateResult h name dets dur err t)) = TimeOfFirstFailure p"
    if "results h name = Some p \<and> \<not> Result_IsHealthy p" for p
    using that by (auto simp: e updateResult_failing_next Result_IsHealthy_def)
  from first nxt show ?thesis by (simp add: updateResult_stored)
qed

text \<open>
  On the new registry (no previous result) a failure at 7 starts a streak; on the
  registry that holds the failing result of "a" recorded at 5, a failure at 7 extends
  the streak to 2 and keeps its start 5; after a healthy result recorded at 6, a
  failure at 7 starts a streak again.
\<close>

theorem updateResult_unhealthy_witness:
  "reachable New \<and> results New ''a'' = None \<and>
   ContiguousFailures (snd (updateResult New ''a'' ''down'' 2 (Some (ErrorString ''boom'')) 7)) = 1 \<and>
   TimeOfFirstFailure (snd (updateResult New ''a'' ''down'' 2 (Some (ErrorString ''boom'')) 7)) = Some 7 \<and>
   reachable registered_a \<and>
   map_option Result_IsHealthy (results registered_a ''a'') = Some False \<and>
   ContiguousFailures (snd (updateResult registered_a ''a'' ''down'' 2 (Some (ErrorString ''boom'')) 7)) = 2 \<and>
   TimeOfFirstFailure (snd (updateResult registered_a ''a'' ''down'' 2 (Some (ErrorString ''boom'')) 7)) = Some 5 \<and>
   reachable (fst (updateResult registered_a ''a'' ''up'' 1 None 6)) \<and>
   map_option Result_IsHealthy (results (fst (updateResult registered_a ''a'' ''up'' 1 None 6)) ''a'') = Some True \<and>
   ContiguousFailures (snd (updateResult (fst (updateResult registered_a ''a'' ''up'' 1 None 6))
       ''a'' ''down'' 2 (Some (ErrorString ''boom'')) 7)) = 1 \<and>
   TimeOfFirstFailure (snd (updateResult (fst (updateResult registered_a ''a'' ''up'' 1 None 6))
       ''a'' ''down'' 2 (Some (ErrorString ''boom'')) 7)) = Some 7"
proof -
  have e: "Some (ErrorString ''boom'') \<noteq> None" by simp
  have r0: "reachable New" by (rule reach_New)
  have n0: "results New ''a'' = None" by (simp add: New_def)
  have r1: "reachable registered_a" by (rule reachable_registered_a)
  have r2: "reachable (fst (updateResult registered_a ''a'' ''up'' 1 None 6))"
    by (rule reach_updateResult [OF r1])
  have s2: "results (fst (updateResult registered_a ''a'' ''up'' 1 None 6)) ''a'' =
      Some \<lparr>Details = ''up'', Error = None, Timestamp = 6, Duration = 1,
            ContiguousFailures = 0, TimeOfFirstFailure = None\<rparr>"
    by (simp add: updateResult_stored updateResult_healthy)
  from updateResult_unhealthy [OF r0 e, of "''a''" "''down''" 2 7]
    updateResult_unhealthy [OF r1 e, of "''a''" "''down''" 2 7]
    updateResult_unhealthy [OF r2 e, of "''a''" "''down''" 2 7]
  show ?thesis
    using r0 n0 r1 r2 by (simp add: registered_a_result s2 Result_IsHealthy_def)
qed

subsection \<open>A misconfigured check\<close>

text \<open>
  C5. \<^verbatim>\<open>RegisterCheck(cfg)\<close> returns (it does not panic); the error it returns is
  not nil iff the Check of \<open>cfg\<close> is nil or its name is the empty string; and when the
  error is not nil the registry is unchanged: no result stored, no task created, no
  execution loop started, no listener called.
\<close>

theorem RegisterCheck_error:
  "snd (RegisterCheck h (Some cfg) now) \<noteq> Panic \<and>
   (\<exists>e. snd (RegisterCheck h (Some cfg) now) = Return (Some e)) =
     (Check cfg = None \<or> (\<exists>c. Check cfg = Some c \<and> Name c = [])) \<and>
   ((\<exists>e. snd (RegisterCheck h (Some cfg) now) = Return (Some e)) \<longrightarrow>
      fst (RegisterCheck h (Some cfg) now) = h)"
proof (cases "Check cfg = None \<or> (\<exists>c. Check cfg = Some c \<and> Name c = [])")
  case True
  then have "RegisterCheck h (Some cfg) now =
      (h, Return (Some (Errorf ''misconfigured check %v'' (Check cfg))))"
    by (rule RegisterCheck_invalid)
  with True show ?thesis by simp
next
  case False
  then obtain c where c: "Check cfg = Some c" "Name c \<noteq> []" by auto
  then have "snd (RegisterCheck h (Some cfg) now) = Return None"
    by (simp add: RegisterCheck_valid)
  with False show ?thesis by simp
qed

text \<open>
  A configuration without a Check and one whose check has the empty name are refused
  and leave the registry as it was; the configuration of the check "a" is accepted.
\<close>

theorem RegisterCheck_error_witness:
  "RegisterCheck registered_a (Some (cfg_a\<lparr>Check := None\<rparr>)) 8 =
     (registered_a, Return (Some (Errorf ''misconfigured check %v'' None))) \<and>
   RegisterCheck registered_a (Some (cfg_a\<lparr>Check := Some \<lparr>Name = [], Impl = 1\<rparr>\<rparr>)) 8 =
     (registered_a, Return (Some (Errorf ''misconfigured check %v'' (Some \<lparr>Name = [], Impl = 1\<rparr>)))) \<and>
   snd (RegisterCheck registered_a (Some cfg_a) 8) = Return None"
proof -
  note a = RegisterCheck_error [of registered_a "cfg_a\<lparr>Check := None\<rparr>" 8]
  note b = RegisterCheck_error [of registered_a "cfg_a\<lparr>Check := Some \<lparr>Name = [], Impl = 1\<rparr>\<rparr>" 8]
  note c = RegisterCheck_error [of registered_a cfg_a 8]
  from a have 1: "RegisterCheck registered_a (Some (cfg_a\<lparr>Check := None\<rparr>)) 8 =
     (registered_a, Return (Some (Errorf ''misconfigured check %v'' None)))"
    by (simp add: RegisterCheck_def)
  from b have 2: "RegisterCheck registered_a (Some (cfg_a\<lparr>Check := Some \<lparr>Name = [], Impl = 1\<rparr>\<rparr>)) 8 =
     (registered_a, Return (Some (Errorf ''misconfigured check %v'' (Some \<lparr>Name = [], Impl = 1\<rparr>))))"
    by (simp add: RegisterCheck_def)
  from c have 3: "snd (RegisterCheck registered_a (Some cfg_a) 8) = Return None"
    by (cases "snd (RegisterCheck registered_a (Some cfg_a) 8)")
       (auto simp: cfg_a_def check_a_def split: option.splits)
  from 1 2 3 show ?thesis by simp
qed

subsection \<open>The initial result\<close>

text \<open>
  C6. For every \<^verbatim>\<open>RegisterCheck(cfg)\<close> that succeeds (returns a nil error), the
  result stored under the check's name when it returns, before any execution, has a
  non-nil error when \<open>InitiallyPassing\<close> is false and a nil error when it is true.
\<close>

theorem RegisterCheck_initial_result:
  assumes "snd (RegisterCheck h (Some cfg) now) = Return None"
  shows "\<exists>c r. Check cfg = Some c \<and>
           results (fst (RegisterCheck h (Some cfg) now)) (Name c) = Some r \<and>
           (Error r \<noteq> None) = (\<not> InitiallyPassing cfg)"
proof (cases "Check cfg = None \<or> (\<exists>c. Check cfg = Some c \<and> Name c = [])")
  case True
  then have "RegisterCheck h (Some cfg) now =
      (h, Return (Some (Errorf ''misconfigured check %v'' (Check cfg))))"
    by (rule RegisterCheck_invalid)
  with assms show ?thesis by simp
next
  case False
  then obtain c where c: "Check cfg = Some c" "Name c \<noteq> []" by auto
  then have "results (fst (RegisterCheck h (Some cfg) now)) (Name c) =
      Some (snd (registered h cfg c now))"
    by (simp add: results_RegisterCheck_valid)
  with c(1) registered_Error [of h cfg c now] show ?thesis by blast
qed

text \<open>
  The check "a" registered on a new registry: initially failing, the stored error is
  not nil; registered as initially passing, it is nil.
\<close>

theorem RegisterCheck_initial_result_witness:
  "snd (RegisterCheck New (Some cfg_a) 5) = Return None \<and>
   map_option Error (results (fst (RegisterCheck New (Some cfg_a) 5)) ''a'') =
     Some (Some (Marshalable (ErrorString initialResultMsg))) \<and>
   snd (RegisterCheck New (Some cfg_passing) 5) = Return None \<and>
   map_option Error (results (fst (RegisterCheck New (Some cfg_passing) 5)) ''a'') = Some None"
proof -
  have a: "snd (RegisterCheck New (Some cfg_a) 5) = Return None"
    by (simp add: RegisterCheck_valid [of _ check_a] cfg_a_def check_a_def)
  have b: "snd (RegisterCheck New (Some cfg_passing) 5) = Return None"
    by (simp add: RegisterCheck_valid [of _ check_a] cfg_passing_def check_a_def)
  from RegisterCheck_initial_result [OF a]
  have 1: "map_option Error (results (fst (RegisterCheck New (Some cfg_a) 5)) ''a'') =
     Some (Some (Marshalable (ErrorString initialResultMsg)))"
    using registered_a_result by (auto simp: registered_a_def)
  from RegisterCheck_initial_result [OF b] obtain r where
    "results (fst (RegisterCheck New (Some cfg_passing) 5)) ''a'' = Some r" "Error r = None"
    by (auto simp: cfg_passing_def check_a_def)
  then have 2: "map_option Error (results (fst (RegisterCheck New (Some cfg_passing) 5)) ''a'') = Some None"
    by simp
  from a b 1 2 show ?thesis by simp
qed

subsection \<open>The key sets of the two maps\<close>

text \<open>
  C7 asks that the result map and the task map keep equal key sets across the
  operations of the registry, and that no operation leaves a name in the results and
  not in the tasks. The code does not keep them equal. Each of three executions from
  the new registry is made of whole calls that return, and of rounds of the loops.
  After \<open>orphan_trace\<close> (a name registered twice, deregistered once) and after
  \<open>reregister_trace\<close> (registered, deregistered, registered again), "a" has a result
  and no task while a loop of "a" is still running, and \<^verbatim>\<open>Deregister\<close> of "a" changes
  nothing, so that loop can no longer be stopped. After \<open>overtaken_trace\<close> (the
  clean-up of the first loop runs between the two critical sections of the second
  \<^verbatim>\<open>RegisterCheck\<close>), "a" has a task and no result.
\<close>

theorem key_sets_diverge:
  "map_option snd (run New orphan_trace) = Some (Return ()) \<and>
   dom (results (state_after orphan_trace)) = {''a''} \<and>
   dom (checkTasks (state_after orphan_trace)) = {} \<and>
   goroutines (state_after orphan_trace) 0 =
     Some (\<lparr>stopChan = 0, ticker = Some 10, check = check_a\<rparr>, cfg_a) \<and>
   Deregister (state_after orphan_trace) ''a'' = Some (state_after orphan_trace) \<and>
   map_option snd (run New reregister_trace) = Some (Return ()) \<and>
   dom (results (state_after reregister_trace)) = {''a''} \<and>
   dom (checkTasks (state_after reregister_trace)) = {} \<and>
   goroutines (state_after reregister_trace) 1 =
     Some (\<lparr>stopChan = 1, ticker = Some 10, check = check_a\<rparr>, cfg_a) \<and>
   Deregister (state_after reregister_trace) ''a'' = Some (state_after reregister_trace) \<and>
   map_option snd (run New overtaken_trace) = Some (Return ()) \<and>
   dom (results (state_after overtaken_trace)) = {} \<and>
   dom (checkTasks (state_after overtaken_trace)) = {''a''}"
proof -
  note a = run_orphan_trace and b = run_reregister_trace and c = run_overtaken_trace
  have 1: "Deregister (state_after orphan_trace) ''a'' = Some (state_after orphan_trace)"
    using a by (simp add: Deregister_def)
  have 2: "Deregister (state_after reregister_trace) ''a'' = Some (state_after reregister_trace)"
    using b by (simp add: Deregister_def)
  from a b c 1 2 show ?thesis by simp
qed

subsection \<open>A fault during an execution\<close>

text \<open>
  C8, as amended. When \<^verbatim>\<open>task.execute()\<close> returns a controlled error, the error
  is recorded as a failing result of that name and \<^verbatim>\<open>runCheckOrStop\<close> returns true;
  the round of the loop then ends normally and the loop goes on when its ticker is
  running or \<open>ExecutionPeriod\<close> is positive, and it ends with the panic of
  \<^verbatim>\<open>time.NewTicker\<close> when the first execution is over and \<open>ExecutionPeriod\<close> is not
  positive. When the execution faults (a panic leaves \<^verbatim>\<open>task.execute()\<close>), nothing
  in \<^verbatim>\<open>checkAndUpdateResult\<close>, \<^verbatim>\<open>runCheckOrStop\<close> or the loop of
  \<^verbatim>\<open>scheduleCheck\<close> contains it: the stored results are unchanged, the round of the
  loop ends with the panic, and no event follows it, so the check is not executed
  again.
\<close>

theorem execution_fault_propagates:
  assumes "goroutines h g = Some (task, cfg)"
  shows "(\<exists>h1 r. runCheckOrStop h task (TimerCase t (Returned dets dur (Some e))) =
                   Some (h1, Return True) \<and>
                 results h1 (Name (check task)) = Some r \<and> Error r = Some (Marshalable e)) \<and>
         (ticker task \<noteq> None \<or> 0 < ExecutionPeriod cfg \<longrightarrow>
            (\<exists>h2 r. iteration h g (TimerCase t (Returned dets dur (Some e))) =
                      Some (h2, Return ()) \<and>
                    goroutines h2 g \<noteq> None \<and>
                    results h2 (Name (check task)) = Some r \<and>
                    Error r = Some (Marshalable e))) \<and>
         (ticker task = None \<and> ExecutionPeriod cfg \<le> 0 \<longrightarrow>
            (\<exists>h2 r. iteration h g (TimerCase t (Returned dets dur (Some e))) =
                      Some (h2, Panic) \<and>
                    results h2 (Name (check task)) = Some r \<and>
                    Error r = Some (Marshalable e))) \<and>
         iteration h g (TimerCase t Panicked) =
           Some (notify h (CheckStarted (Name (check task))), Panic) \<and>
         results (notify h (CheckStarted (Name (check task)))) = results h \<and>
         (es \<noteq> [] \<longrightarrow> run h (LoopRound g (TimerCase t Panicked) # es) = None)"
proof -
  define h1 where "h1 = notify (fst (updateResult (notify h (CheckStarted (Name (check task))))
                          (Name (check task)) dets dur (Some e) t))
             (CheckCompleted (Name (check task))
                (snd (updateResult (notify h (CheckStarted (Name (check task))))
                        (Name (check task)) dets dur (Some e) t)))"
  have rc: "runCheckOrStop h task (TimerCase t (Returned dets dur (Some e))) =
      Some (h1, Return True)"
    unfolding h1_def by (rule runCheckOrStop_Returned)
  have res: "\<exists>r. results h1 (Name (check task)) = Some r \<and> Error r = Some (Marshalable e)"
    unfolding h1_def
    by (simp add: results_notify updateResult_stored Error_updateResult newMarshalableError_def)
  have gr: "goroutines h1 = goroutines h"
    unfolding h1_def by (simp add: notify_def updateResult_def Let_def)
  from rc res have 1: "\<exists>h1 r. runCheckOrStop h task (TimerCase t (Returned dets dur (Some e))) =
                   Some (h1, Return True) \<and>
                 results h1 (Name (check task)) = Some r \<and> Error r = Some (Marshalable e)"
    by blast
  have 2: "\<exists>h2 r. iteration h g (TimerCase t (Returned dets dur (Some e))) =
                      Some (h2, Return ()) \<and>
                    goroutines h2 g \<noteq> None \<and>
                    results h2 (Name (check task)) = Some r \<and>
                    Error r = Some (Marshalable e)"
    if "ticker task \<noteq> None \<or> 0 < ExecutionPeriod cfg"
    using that assms rc res gr
    by (auto simp: iteration_def Let_def reportResults_def notify_def)
  have 3: "\<exists>h2 r. iteration h g (TimerCase t (Returned dets dur (Some e))) =
                      Some (h2, Panic) \<and>
                    results h2 (Name (check task)) = Some r \<and>
                    Error r = Some (Marshalable e)"
    if "ticker task = None \<and> ExecutionPeriod cfg \<le> 0"
    using that assms rc res
    by (auto simp: iteration_def Let_def reportResults_def notify_def)
  from assms have 4: "iteration h g (TimerCase t Panicked) =
      Some (notify h (CheckStarted (Name (check task))), Panic)"
    by (simp add: iteration_def runCheckOrStop_Panicked)
  then have 5: "es \<noteq> [] \<longrightarrow> run h (LoopRound g (TimerCase t Panicked) # es) = None"
    by simp
  from 1 2 3 4 5 show ?thesis by (simp add: results_notify)
qed

text \<open>
  The loop of the check "a" with the period 10: an execution that returns the error
  "boom" is recorded and the loop goes on; an execution that panics ends the loop.
  With the period 0, which \<^verbatim>\<open>RegisterCheck\<close> accepts, the error of the first
  execution is recorded and the round ends with the panic of the ticker.
\<close>

theorem execution_fault_propagates_witness:
  "goroutines registered_a 0 = Some (\<lparr>stopChan = 0, ticker = None, check = check_a\<rparr>, cfg_a) \<and>
   0 < ExecutionPeriod cfg_a \<and>
   (\<exists>h1 r. runCheckOrStop registered_a \<lparr>stopChan = 0, ticker = None, check = check_a\<rparr>
              (TimerCase 9 (Returned ''down'' 2 (Some (ErrorString ''boom'')))) =
              Some (h1, Return True) \<and>
            results h1 ''a'' = Some r \<and> Error r = Some (Marshalable (ErrorString ''boom''))) \<and>
   (\<exists>h2 r. iteration registered_a 0 (TimerCase 9 (Returned ''down'' 2 (Some (ErrorString ''boom'')))) =
              Some (h2, Return ()) \<and>
            goroutines h2 0 \<noteq> None \<and>
            results h2 ''a'' = Some r \<and> Error r = Some (Marshalable (ErrorString ''boom''))) \<and>
   iteration registered_a 0 (TimerCase 9 Panicked) =
     Some (notify registered_a (CheckStarted ''a''), Panic) \<and>
   run registered_a [LoopRound 0 (TimerCase 9 Panicked),
                     LoopRound 0 (TimerCase 19 (Returned ''up'' 1 None))] = None \<and>
   snd (RegisterCheck New (Some cfg_zero) 5) = Return None \<and>
   goroutines registered_zero 0 =
     Some (\<lparr>stopChan = 0, ticker = None, check = check_a\<rparr>, cfg_zero) \<and>
   ExecutionPeriod cfg_zero \<le> 0 \<and>
   (\<exists>h2 r. iteration registered_zero 0 (TimerCase 9 (Returned ''down'' 2 (Some (ErrorString ''boom'')))) =
              Some (h2, Panic) \<and>
            results h2 ''a'' = Some r \<and> Error r = Some (Marshalable (ErrorString ''boom'')))"
proof -
  have g: "goroutines registered_a 0 =
      Some (\<lparr>stopChan = 0, ticker = None, check = check_a\<rparr>, cfg_a)"
    by (simp add: registered_a_def eval_defs)
  have p: "0 < ExecutionPeriod cfg_a" by (simp add: cfg_a_def)
  have a: "Name check_a = ''a''" by (simp add: check_a_def)
  have z: "snd (RegisterCheck New (Some cfg_zero) 5) = Return None"
    by (simp add: RegisterCheck_valid [of _ check_a] cfg_zero_def check_a_def)
  have gz: "goroutines registered_zero 0 =
      Some (\<lparr>stopChan = 0, ticker = None, check = check_a\<rparr>, cfg_zero)"
    by (simp add: registered_zero_def cfg_zero_def eval_defs)
  have pz: "ExecutionPeriod cfg_zero \<le> 0" by (simp add: cfg_zero_def)
  note t1 = execution_fault_propagates [OF g, of 9 "''down''" 2 "ErrorString ''boom''"
      "[LoopRound 0 (TimerCase 19 (Returned ''up'' 1 None))]"]
  note t2 = execution_fault_propagates [OF gz, of 9 "''down''" 2 "ErrorString ''boom''" "[]"]
  from t1 p have 1: "(\<exists>h1 r. runCheckOrStop registered_a \<lparr>stopChan = 0, ticker = None, check = check_a\<rparr>
              (TimerCase 9 (Returned ''down'' 2 (Some (ErrorString ''boom'')))) =
              Some (h1, Return True) \<and>
            results h1 ''a'' = Some r \<and> Error r = Some (Marshalable (ErrorString ''boom'')))"
    "(\<exists>h2 r. iteration registered_a 0 (TimerCase 9 (Returned ''down'' 2 (Some (ErrorString ''boom'')))) =
              Some (h2, Return ()) \<and>
            goroutines h2 0 \<noteq> None \<and>
            results h2 ''a'' = Some r \<and> Error r = Some (Marshalable (ErrorString ''boom'')))"
    "iteration registered_a 0 (TimerCase 9 Panicked) =
     Some (notify registered_a (CheckStarted ''a''), Panic)"
    "run registered_a [LoopRound 0 (TimerCase 9 Panicked),
                     LoopRound 0 (TimerCase 19 (Returned ''up'' 1 None))] = None"
    by (simp_all add: a)
  from t2 pz have 2: "(\<exists>h2 r. iteration registered_zero 0 (TimerCase 9 (Returned ''down'' 2 (Some (ErrorString ''boom'')))) =
              Some (h2, Panic) \<and>
            results h2 ''a'' = Some r \<and> Error r = Some (Marshalable (ErrorString ''boom'')))"
    by (simp add: a)
  from g p 1 z gz pz 2 show ?thesis by (intro conjI)
qed

text \<open>
  C8 as stated fails: the check "a" is registered as passing, and its first execution
  panics. The round of the loop ends with the panic, the stored result of "a" is still
  the healthy one of the registration (no failing result was recorded), and the round
  of the next tick does not take place.
\<close>

theorem execution_fault_counterexample:
  "iteration registered_passing 0 (TimerCase 9 Panicked) =
     Some (notify registered_passing (CheckStarted ''a''), Panic) \<and>
   results (notify registered_passing (CheckStarted ''a'')) ''a'' =
     Some \<lparr>Details = initialResultMsg, Error = None, Timestamp = 5, Duration = 0,
           ContiguousFailures = 0, TimeOfFirstFailure = None\<rparr> \<and>
   run registered_passing [LoopRound 0 (TimerCase 9 Panicked),
                           LoopRound 0 (TimerCase 19 (Returned ''up'' 1 None))] = None"
  by (simp add: registered_passing_def cfg_passing_def eval_defs)

subsection \<open>A name registered twice\<close>

text \<open>
  C9. \<^verbatim>\<open>RegisterCheck\<close> of a valid configuration whose check's name already has a
  task in the registry returns nil, and the entry of that name in \<open>checkTasks\<close> is
  then the new task (a new stop channel, the configuration's check), which is not the
  task that was there; the execution loop of the new task is started.
\<close>

theorem RegisterCheck_existing_name:
  assumes "reachable h" and "Check cfg = Some c" and "Name c \<noteq> []"
    and "checkTasks h (Name c) = Some old"
  shows "snd (RegisterCheck h (Some cfg) now) = Return None \<and>
         checkTasks (fst (RegisterCheck h (Some cfg) now)) (Name c) =
           Some \<lparr>stopChan = length (stopChans h), ticker = None, check = c\<rparr> \<and>
         \<lparr>stopChan = length (stopChans h), ticker = None, check = c\<rparr> \<noteq> old \<and>
         goroutines (fst (RegisterCheck h (Some cfg) now)) (length (stopChans h)) =
           Some (\<lparr>stopChan = length (stopChans h), ticker = None, check = c\<rparr>, cfg)"
proof -
  from assms(1) have "tasks_ok h" by (rule reachable_tasks_ok)
  with assms(4) have "stopChan old < length (stopChans h)" by (auto simp: tasks_ok_def)
  then have "\<lparr>stopChan = length (stopChans h), ticker = None, check = c\<rparr> \<noteq> old" by auto
  moreover from assms(2,3) have "snd (RegisterCheck h (Some cfg) now) = Return None"
    by (simp add: RegisterCheck_valid)
  ultimately show ?thesis
    using assms(2,3)
    by (simp add: checkTasks_RegisterCheck_valid goroutines_RegisterCheck_valid)
qed

text \<open>
  The check "a" is registered; registering a check of the same name again returns nil
  and replaces the task of channel 0 by a task of channel 1.
\<close>

theorem RegisterCheck_existing_name_witness:
  "reachable registered_a \<and> Check cfg_a = Some check_a \<and> Name check_a \<noteq> [] \<and>
   checkTasks registered_a ''a'' = Some \<lparr>stopChan = 0, ticker = None, check = check_a\<rparr> \<and>
   snd (RegisterCheck registered_a (Some cfg_a) 8) = Return None \<and>
   checkTasks (fst (RegisterCheck registered_a (Some cfg_a) 8)) ''a'' =
     Some \<lparr>stopChan = 1, ticker = None, check = check_a\<rparr>"
proof -
  have r: "reachable registered_a" by (rule reachable_registered_a)
  have c: "Check cfg_a = Some check_a" by (simp add: cfg_a_def)
  have n: "Name check_a \<noteq> []" by (simp add: check_a_def)
  have t: "checkTasks registered_a (Name check_a) = Some \<lparr>stopChan = 0, ticker = None, check = check_a\<rparr>"
    unfolding registered_a_def by (simp add: checkTasks_RegisterCheck_valid [OF c n] New_def)
  have l: "length (stopChans registered_a) = 1"
    unfolding registered_a_def
    by (simp add: RegisterCheck_valid [OF c n] scheduleCheck_def createCheckTask_Some [OF c]
        notify_def registered_def updateResult_def Let_def New_def)
  from RegisterCheck_existing_name [OF r c n t, of 8] r c n t l
  show ?thesis by (simp add: check_a_def)
qed

subsection \<open>The initial result is counted\<close>

text \<open>
  C10. When \<^verbatim>\<open>RegisterCheck\<close> is called with \<open>InitiallyPassing\<close> false for a name
  that has no stored result, the result it stores counts as the first failure of the
  streak: \<open>ContiguousFailures = 1\<close> and \<open>TimeOfFirstFailure\<close> is the instant of the
  registration. After the first execution of the check, when it fails,
  \<open>ContiguousFailures\<close> is 2 and \<open>TimeOfFirstFailure\<close> is still the instant of the
  registration.
\<close>

theorem RegisterCheck_sentinel_counted:
  assumes "Check cfg = Some c" and "Name c \<noteq> []" and "\<not> InitiallyPassing cfg"
    and "results h (Name c) = None" and "check task = c"
  shows "\<exists>r r2.
           results (fst (RegisterCheck h (Some cfg) t0)) (Name c) = Some r \<and>
           ContiguousFailures r = 1 \<and> TimeOfFirstFailure r = Some t0 \<and>
           results (fst (checkAndUpdateResult (fst (RegisterCheck h (Some cfg) t0)) task t1
                           (Returned dets dur (Some e)))) (Name c) = Some r2 \<and>
           ContiguousFailures r2 = 2 \<and> TimeOfFirstFailure r2 = Some t0"
proof -
  define h1 where "h1 = fst (RegisterCheck h (Some cfg) t0)"
  define r where "r = snd (registered h cfg c t0)"
  from assms(3,4) have r: "ContiguousFailures r = 1" "TimeOfFirstFailure r = Some t0"
      "Error r \<noteq> None"
    by (simp_all add: r_def registered_def updateResult_failing_first)
  from assms(1,2) have s: "results h1 (Name c) = Some r"
    by (simp add: h1_def r_def results_RegisterCheck_valid)
  define r2 where "r2 = snd (updateResult (notify h1 (CheckStarted (Name c))) (Name c) dets dur (Some e) t1)"
  from s have "results (notify h1 (CheckStarted (Name c))) (Name c) = Some r"
    by (simp add: results_notify)
  then have "r2 = \<lparr>Details = dets, Error = Some (Marshalable e), Timestamp = t1, Duration = dur,
      ContiguousFailures = ContiguousFailures r + 1,
      TimeOfFirstFailure = (if Error r = None then Some t1 else TimeOfFirstFailure r)\<rparr>"
    unfolding r2_def by (rule updateResult_failing_next)
  with r have r2: "ContiguousFailures r2 = 2" "TimeOfFirstFailure r2 = Some t0" by auto
  have "results (fst (checkAndUpdateResult h1 task t1 (Returned dets dur (Some e)))) (Name c) = Some r2"
    using assms(5)
    by (simp add: checkAndUpdateResult_def Let_def split_beta results_notify updateResult_stored r2_def)
  with s r r2 show ?thesis unfolding h1_def by blast
qed

text \<open>
  The check "a" registered at 5 on the new registry: the stored result has the count
  1 and the start 5; after a failing execution at 9 the count is 2 and the start is
  still 5.
\<close>

theorem RegisterCheck_sentinel_counted_witness:
  "Check cfg_a = Some check_a \<and> Name check_a \<noteq> [] \<and> \<not> InitiallyPassing cfg_a \<and>
   results New (Name check_a) = None \<and>
   (\<exists>r r2. results (fst (RegisterCheck New (Some cfg_a) 5)) ''a'' = Some r \<and>
      ContiguousFailures r = 1 \<and> TimeOfFirstFailure r = Some 5 \<and>
      results (fst (checkAndUpdateResult (fst (RegisterCheck New (Some cfg_a) 5))
                 \<lparr>stopChan = 0, ticker = None, check = check_a\<rparr> 9
                 (Returned ''down'' 2 (Some (ErrorString ''boom''))))) ''a'' = Some r2 \<and>
      ContiguousFailures r2 = 2 \<and> TimeOfFirstFailure r2 = Some 5)"
proof -
  have c: "Check cfg_a = Some check_a" by (simp add: cfg_a_def)
  have n: "Name check_a \<noteq> []" by (simp add: check_a_def)
  have p: "\<not> InitiallyPassing cfg_a" by (simp add: cfg_a_def)
  have e: "results New (Name check_a) = None" by (simp add: New_def)
  have k: "check \<lparr>stopChan = 0, ticker = None, check = check_a\<rparr> = check_a" by simp
  have a: "Name check_a = ''a''" by (simp add: check_a_def)
  from RegisterCheck_sentinel_counted [OF c n p e k, of 5 9 "''down''" 2 "ErrorString ''boom''"]
  show ?thesis using c n p e unfolding a by simp
qed

end
